theory Spec2Isabelle
  imports Main "HOL-Library.Sublist"
begin

section \<open>JavaScript values and the type classifier\<close>

text \<open>
  The values an options object can hold. Numbers are kept as integers, with \<open>NaN\<close> apart
  (the code only asks for their \<open>typeof\<close> and their truthiness); a function, a symbol and a
  regular expression are opaque. An object value is a plain one, given by its own properties.
\<close>

datatype jsval =
    VUndefined
  | VNull
  | VBoolean bool
  | VNumber int
  | VNaN
  | VString string
  | VSymbol string
  | VFunction nat
  | VArray "jsval list"
  | VRegExp string
  | VObject "(string \<times> jsval) list"

text \<open>The operator \<open>typeof\<close>.\<close>

fun typeof :: "jsval \<Rightarrow> string" where
  "typeof VUndefined = ''undefined''"
| "typeof VNull = ''object''"
| "typeof (VBoolean b) = ''boolean''"
| "typeof (VNumber n) = ''number''"
| "typeof VNaN = ''number''"
| "typeof (VString s) = ''string''"
| "typeof (VSymbol s) = ''symbol''"
| "typeof (VFunction f) = ''function''"
| "typeof (VArray xs) = ''object''"
| "typeof (VRegExp r) = ''object''"
| "typeof (VObject ps) = ''object''"

text \<open>\<open>ToBoolean\<close>: what \<open>!value\<close> negates.\<close>

fun truthy :: "jsval \<Rightarrow> bool" where
  "truthy VUndefined = False"
| "truthy VNull = False"
| "truthy (VBoolean b) = b"
| "truthy (VNumber n) = (n \<noteq> 0)"
| "truthy VNaN = False"
| "truthy (VString s) = (s \<noteq> [])"
| "truthy (VSymbol s) = True"
| "truthy (VFunction f) = True"
| "truthy (VArray xs) = True"
| "truthy (VRegExp r) = True"
| "truthy (VObject ps) = True"

fun isArray :: "jsval \<Rightarrow> bool" where
  "isArray (VArray xs) = True"
| "isArray v = False"

fun isRegExp :: "jsval \<Rightarrow> bool" where
  "isRegExp (VRegExp r) = True"
| "isRegExp v = False"

definition VALID_TYPES :: "string list" where
  "VALID_TYPES = [''array'', ''boolean'', ''function'', ''null'', ''number'', ''object'',
     ''regexp'', ''string'', ''symbol'', ''undefined'']"

text \<open>\<open>getTypeOf\<close> (lines 122-134): \<open>typeof\<close>, refined where it says \<open>object\<close>.\<close>

definition getTypeOf :: "jsval \<Rightarrow> string" where
  "getTypeOf v =
     (let type = typeof v in
      if type = ''object'' then
        (if \<not> truthy v then ''null''
         else if isArray v then ''array''
         else if isRegExp v then ''regexp''
         else type)
      else type)"

section \<open>Exceptions, callbacks and requirements\<close>

text \<open>
  What a \<open>throw\<close> can carry: a \<open>RequirementError\<close> with its message, a plain \<open>Error\<close> with
  its message, a \<open>TypeError\<close> of the engine (a call of something that is no function), or
  any other thrown value. \<open>err instanceof RequirementError\<close> holds of the first only.
\<close>

datatype exn =
    RequirementError string
  | Error string
  | TypeError
  | Thrown jsval

text \<open>A call of a caller-supplied function returns a value or throws.\<close>

datatype outcome = Returns jsval | Throws exn

text \<open>
  A property of a requirement that the code tests for truthiness: it is absent, present
  with a falsy value, or present with a truthy one.
\<close>

datatype 'a property = Absent | Falsy | Truthy 'a

text \<open>
  A requirement is an object with the properties \<open>dflt\<close>, \<open>map\<close>, \<open>is\<close>, \<open>ok\<close> and \<open>msg\<close>.
  \<^item> \<open>dflt\<close> is tested with \<open>'dflt' in req\<close>: \<open>None\<close> when the property is absent, \<open>Some v\<close>
    when it is present with the value \<open>v\<close> (which may be \<open>undefined\<close>).
  \<^item> \<open>map\<close> and \<open>ok\<close> are tested for truthiness and called: \<open>None\<close> when absent or falsy,
    \<open>Some f\<close> otherwise (a truthy value that is no function is the \<open>f\<close> that throws
    \<open>TypeError\<close>).
  \<^item> \<open>is\<close> is an array of type names or another requirement (anything that has an
    \<open>is\<close> of its own); a present but falsy \<open>is\<close> is kept apart from an absent one,
    since \<open>merge\<close> copies it.
  \<^item> \<open>msg\<close> is a string, \<open>None\<close> when absent; the empty string is the falsy one.
  Type names are strings. Objects are finite trees here, so an \<open>is\<close> chain cannot be cyclic.
\<close>

datatype requirement =
  Requirement
    (dflt: "jsval option")
    (map_fn: "(jsval \<Rightarrow> outcome) option")
    (is_types: "types property")
    (ok_fn: "(jsval \<Rightarrow> outcome) option")
    (msg: "string option")
and types =
    TypeArray "string list"
  | Nested requirement

text \<open>\<open>Array.prototype.join\<close> on an array of strings.\<close>

fun join :: "string \<Rightarrow> string list \<Rightarrow> string" where
  "join sep [] = []"
| "join sep [x] = x"
| "join sep (x # y # ys) = x @ sep @ join sep (y # ys)"

text \<open>
  \<open>throw new RequirementError(key, requirement)\<close> (lines 137-150): the exception that the
  statement raises. The constructor reads \<open>requirement.is.join\<close> when \<open>msg\<close> is falsy and
  \<open>is\<close> is truthy; an \<open>is\<close> that is a requirement, not an array, has no \<open>join\<close>, and the
  call throws a \<open>TypeError\<close> before any \<open>RequirementError\<close> exists.
\<close>

definition new_RequirementError :: "string \<Rightarrow> requirement \<Rightarrow> exn" where
  \<open>new_RequirementError key requirement =
     (case msg requirement of
        Some m \<Rightarrow>
          if m \<noteq> [] then RequirementError m
          else
            (case is_types requirement of
               Truthy (TypeArray ts) \<Rightarrow>
                 RequirementError (''The option "'' @ key @ ''" '' @
                   ''must be one of the following types: '' @ join '', '' ts)
             | Truthy (Nested r) \<Rightarrow> TypeError
             | _ \<Rightarrow> RequirementError (''The option "'' @ key @ ''" '' @ ''is invalid.''))
      | None \<Rightarrow>
          (case is_types requirement of
             Truthy (TypeArray ts) \<Rightarrow>
               RequirementError (''The option "'' @ key @ ''" '' @
                 ''must be one of the following types: '' @ join '', '' ts)
           | Truthy (Nested r) \<Rightarrow> TypeError
           | _ \<Rightarrow> RequirementError (''The option "'' @ key @ ''" '' @ ''is invalid.'')))\<close>

section \<open>validateOptions\<close>

text \<open>
  The object that \<open>validateOptions\<close> reads is given by the properties that \<open>key in options\<close>
  finds and \<open>options[key]\<close> reads: its own ones and those that it inherits through its
  prototype chain. The object that it returns is given by its own properties.
\<close>

type_synonym object = "string \<rightharpoonup> jsval"

text \<open>
  The literal \<open>{}\<close> has no property of its own and inherits those of \<open>Object.prototype\<close>:
  eleven methods, and the accessor \<open>__proto__\<close>, whose getter returns the prototype of the
  object, here \<open>Object.prototype\<close> itself. So \<open>'toString' in {}\<close> holds, and
  \<open>({})['toString']\<close> is a function.
\<close>

definition Object_prototype :: "(string \<times> jsval) list" where
  "Object_prototype =
     [(''constructor'', VFunction 0),
      (''__defineGetter__'', VFunction 1),
      (''__defineSetter__'', VFunction 2),
      (''hasOwnProperty'', VFunction 3),
      (''__lookupGetter__'', VFunction 4),
      (''__lookupSetter__'', VFunction 5),
      (''isPrototypeOf'', VFunction 6),
      (''propertyIsEnumerable'', VFunction 7),
      (''toString'', VFunction 8),
      (''valueOf'', VFunction 9),
      (''toLocaleString'', VFunction 10)]"

definition empty_literal :: object where
  "empty_literal = (map_of Object_prototype)(''__proto__'' \<mapsto> VObject Object_prototype)"

text \<open>
  The body of the loop over the keys of \<open>requirements\<close> (lines 60-113), in its five steps.
  Lines 64-70: presence and default. The result is \<open>(keyInOpts, optsVal)\<close>.
\<close>

definition presence_default :: "object \<Rightarrow> string \<Rightarrow> requirement \<Rightarrow> bool \<times> jsval" where
  "presence_default options key req =
     (let keyInOpts = (options key \<noteq> None);
          optsVal = (case options key of Some v \<Rightarrow> v | None \<Rightarrow> VUndefined)
      in case dflt req of
           Some d \<Rightarrow> if optsVal = VUndefined then (True, d) else (keyInOpts, optsVal)
         | None \<Rightarrow> (keyInOpts, optsVal))"

text \<open>
  Lines 72-82: the transform. The result is \<open>(optsVal, mapThrew)\<close>, or the
  \<open>RequirementError\<close> that the transform threw.
\<close>

definition transform :: "requirement \<Rightarrow> jsval \<Rightarrow> exn + jsval \<times> bool" where
  "transform req optsVal =
     (case map_fn req of
        None \<Rightarrow> Inr (optsVal, False)
      | Some f \<Rightarrow>
          (case f optsVal of
             Returns v \<Rightarrow> Inr (v, False)
           | Throws (RequirementError m) \<Rightarrow> Inl (RequirementError m)
           | Throws err \<Rightarrow> Inr (optsVal, True)))"

text \<open>
  Lines 84-105: the type check. \<open>types\<close> is \<open>req.is\<close>, or \<open>req.is.is\<close> when \<open>req.is\<close> is no
  array and \<open>req.is.is\<close> is one: a single step, taken by an \<open>if\<close>. The result is
  \<open>isOptional\<close>, or the exception raised.
\<close>

definition type_check :: "string \<Rightarrow> requirement \<Rightarrow> jsval \<Rightarrow> exn + bool" where
  \<open>type_check key req optsVal =
     (case is_types req of
        Truthy t \<Rightarrow>
          (let types =
             (case t of
                TypeArray ts \<Rightarrow> t
              | Nested r \<Rightarrow> (case is_types r of Truthy (TypeArray ts) \<Rightarrow> TypeArray ts | _ \<Rightarrow> t))
           in case types of
                TypeArray ts \<Rightarrow>
                  (let isOptional = list_all (\<lambda>v. v \<in> set ts) [''undefined'', ''null'']
                   in case find (\<lambda>type. type \<notin> set VALID_TYPES) ts of
                        Some type \<Rightarrow>
                          Inl (Error (''Internal error: invalid requirement type "'' @ type @ ''".''))
                      | None \<Rightarrow>
                          if getTypeOf optsVal \<notin> set ts then Inl (new_RequirementError key req)
                          else Inr isOptional)
              | Nested r \<Rightarrow> Inr False)
      | _ \<Rightarrow> Inr False)\<close>

text \<open>Lines 107-109: the predicate. \<open>optsVal != null\<close> is false of \<open>null\<close> and \<open>undefined\<close>.\<close>

definition predicate_check :: "string \<Rightarrow> requirement \<Rightarrow> bool \<Rightarrow> jsval \<Rightarrow> exn + unit" where
  "predicate_check key req isOptional optsVal =
     (case ok_fn req of
        None \<Rightarrow> Inr ()
      | Some p \<Rightarrow>
          if \<not> isOptional \<or> \<not> (optsVal = VNull \<or> optsVal = VUndefined) then
            (case p optsVal of
               Throws err \<Rightarrow> Inl err
             | Returns b \<Rightarrow> if \<not> truthy b then Inl (new_RequirementError key req) else Inr ())
          else Inr ())"

text \<open>
  The whole body for one key: \<open>Inr (Some v)\<close> when line 112 stores \<open>v\<close> under the key,
  \<open>Inr None\<close> when the key is left out, \<open>Inl e\<close> when the body throws \<open>e\<close>.
\<close>

definition validateKey :: "object \<Rightarrow> string \<Rightarrow> requirement \<Rightarrow> exn + jsval option" where
  "validateKey options key req =
     (case presence_default options key req of
        (keyInOpts, optsVal0) \<Rightarrow>
          (case transform req optsVal0 of
             Inl err \<Rightarrow> Inl err
           | Inr (optsVal, mapThrew) \<Rightarrow>
               (case type_check key req optsVal of
                  Inl err \<Rightarrow> Inl err
                | Inr isOptional \<Rightarrow>
                    (case predicate_check key req isOptional optsVal of
                       Inl err \<Rightarrow> Inl err
                     | Inr u \<Rightarrow>
                         if keyInOpts \<or> (map_fn req \<noteq> None \<and> \<not> mapThrew \<and> optsVal \<noteq> VUndefined)
                         then Inr (Some optsVal)
                         else Inr None))))"

text \<open>
  Line 112, \<open>validatedOptions[key] = optsVal\<close>, on the result, which line 57 creates as the
  literal \<open>{}\<close>. The assignment gives the result an own property under the key, also where
  it inherits a method of that name. The key \<open>__proto__\<close> is the exception: the result
  inherits it as an accessor, the assignment runs its setter, which replaces the prototype
  of the result when the value is an object or \<open>null\<close> and does nothing otherwise, and the
  result gets no own property. A prototype that the setter has put in place is taken to
  have no setter and no read-only property under a key that is assigned later.
\<close>

definition assign :: "object \<Rightarrow> string \<Rightarrow> jsval \<Rightarrow> object" where
  "assign validatedOptions key optsVal =
     (if key = ''__proto__'' then validatedOptions else validatedOptions(key \<mapsto> optsVal))"

text \<open>
  The loop \<open>for (const key in requirements)\<close>: the requirements in their iteration order,
  the first exception ends the call.
\<close>

fun validate_loop :: "object \<Rightarrow> (string \<times> requirement) list \<Rightarrow> object \<Rightarrow> exn + object" where
  "validate_loop options [] validatedOptions = Inr validatedOptions"
| "validate_loop options ((key, req) # rest) validatedOptions =
     (case validateKey options key req of
        Inl err \<Rightarrow> Inl err
      | Inr None \<Rightarrow> validate_loop options rest validatedOptions
      | Inr (Some v) \<Rightarrow> validate_loop options rest (assign validatedOptions key v))"

text \<open>
  \<open>validateOptions(options, requirements)\<close> (lines 55-117). \<open>options\<close> is \<open>None\<close> for a
  falsy argument, which line 56 replaces by the literal \<open>{}\<close>, and \<open>Some\<close> of its
  properties for an object.
\<close>

definition validateOptions :: "object option \<Rightarrow> (string \<times> requirement) list \<Rightarrow> exn + object" where
  "validateOptions options requirements =
     validate_loop (case options of None \<Rightarrow> empty_literal | Some opts \<Rightarrow> opts)
       requirements Map.empty"

section \<open>The requirement combinators\<close>

definition isTruthyType :: "string \<Rightarrow> bool" where
  "isTruthyType type = (\<not> (type = ''undefined'' \<or> type = ''null''))"

text \<open>
  \<open>findTypes\<close> (line 161): \<open>while (!Array.isArray(v) && v.is) v = v.is; return v\<close>. Its
  argument is an array of type names or a requirement; it follows \<open>is\<close> while it is truthy
  and returns the array it reaches, or the first object whose \<open>is\<close> is absent or falsy.
\<close>

fun findTypes :: "types \<Rightarrow> types" where
  "findTypes (TypeArray ts) = TypeArray ts"
| "findTypes (Nested (Requirement d m (Truthy v) p g)) = findTypes v"
| "findTypes (Nested (Requirement d m Absent p g)) = Nested (Requirement d m Absent p g)"
| "findTypes (Nested (Requirement d m Falsy p g)) = Nested (Requirement d m Falsy p g)"

text \<open>The object literals \<open>{}\<close> and \<open>{is: types}\<close>.\<close>

definition empty_object :: requirement where
  "empty_object = Requirement None None Absent None None"

definition is_object :: "string list \<Rightarrow> requirement" where
  "is_object types = Requirement None None (Truthy (TypeArray types)) None None"

text \<open>
  \<open>merge(source, ...properties)\<close> (lines 200-217) collects the own properties of every
  argument after the first in \<open>descriptor\<close>, a later argument overriding an earlier one, and
  defines them on \<open>source\<close>. \<open>define_properties target props\<close> is \<open>target\<close> with every
  property of \<open>props\<close> written over it; both loops of \<open>merge\<close> are it. Every argument is an
  object, so \<open>filter(Boolean)\<close> drops none. In both calls of the code \<open>source\<close> is a literal
  without \<open>dflt\<close>, \<open>map\<close>, \<open>ok\<close> and \<open>msg\<close>, so that reading \<open>None\<close> of \<open>map\<close> and \<open>ok\<close> as
  "absent or falsy" loses nothing.
\<close>

definition define_properties :: "requirement \<Rightarrow> requirement \<Rightarrow> requirement" where
  "define_properties target props =
     Requirement
       (case dflt props of None \<Rightarrow> dflt target | Some v \<Rightarrow> Some v)
       (case map_fn props of None \<Rightarrow> map_fn target | Some f \<Rightarrow> Some f)
       (case is_types props of Absent \<Rightarrow> is_types target | Falsy \<Rightarrow> Falsy | Truthy t \<Rightarrow> Truthy t)
       (case ok_fn props of None \<Rightarrow> ok_fn target | Some f \<Rightarrow> Some f)
       (case msg props of None \<Rightarrow> msg target | Some m \<Rightarrow> Some m)"

definition merge :: "requirement \<Rightarrow> requirement list \<Rightarrow> requirement" where
  "merge source properties =
     (let descriptor = fold (\<lambda>props descriptor. define_properties descriptor props)
                         properties empty_object
      in define_properties source descriptor)"

text \<open>
  \<open>required(req)\<close> (lines 163-166). \<open>findTypes(req)\<close> is an array or an object, truthy
  either way, so \<open>|| VALID_TYPES\<close> is not taken; an object has no \<open>filter\<close>, and calling it
  throws a \<open>TypeError\<close>.
\<close>

definition required :: "requirement \<Rightarrow> exn + requirement" where
  "required req =
     (case findTypes (Nested req) of
        TypeArray ts \<Rightarrow>
          (let types = filter isTruthyType ts
           in Inr (merge empty_object [req, is_object types]))
      | Nested r \<Rightarrow> Inl TypeError)"

text \<open>\<open>req.is = types\<close> on an object.\<close>

definition set_is :: "requirement \<Rightarrow> string list \<Rightarrow> requirement" where
  "set_is req types =
     Requirement (dflt req) (map_fn req) (Truthy (TypeArray types)) (ok_fn req) (msg req)"

text \<open>\<open>optional(req)\<close> (lines 169-173).\<close>

definition optional :: "requirement \<Rightarrow> exn + requirement" where
  "optional req0 =
     (let req = merge (is_object []) [req0]
      in case findTypes (Nested req) of
           TypeArray ts \<Rightarrow>
             Inr (set_is req (filter isTruthyType ts @ [''undefined'', ''null'']))
         | Nested r \<Rightarrow> Inl TypeError)"

text \<open>
  The \<open>reduce\<close> of \<open>union\<close> (lines 229-235): every item is pushed unless the result has it.
\<close>

definition distinct_items :: "string list \<Rightarrow> string list" where
  "distinct_items combined =
     fold (\<lambda>item result. if item \<notin> set result then result @ [item] else result) combined []"

text \<open>
  What \<open>union\<close> returns: an array of type names, or, when \<open>this\<close> of \<open>concat\<close> was an object
  and not an array, an array that starts with that object.
\<close>

datatype tag_array = Tags "string list" | ObjectFirst requirement "string list"

text \<open>
  \<open>union(...arrays)\<close> (lines 223-236). Line 224 is \<open>[].concat.apply(...arrays)\<close>: the spread
  makes the first array the \<open>this\<close> of \<open>concat\<close> and the second the list of its arguments;
  \<open>apply\<close> takes two arguments and ignores the others. With no array at all \<open>this\<close> is
  \<open>undefined\<close>, and \<open>concat\<close> throws a \<open>TypeError\<close>. An object that is no array, given as the
  argument list, has no \<open>length\<close> and yields no argument.
\<close>

fun union_arrays :: "types list \<Rightarrow> exn + tag_array" where
  "union_arrays [] = Inl TypeError"
| "union_arrays (this # args) =
     (let items =
        (case args of
           [] \<Rightarrow> []
         | argArray # ignored \<Rightarrow> (case argArray of TypeArray ts \<Rightarrow> ts | Nested r \<Rightarrow> []))
      in case this of
           TypeArray ts \<Rightarrow> Inr (Tags (distinct_items (ts @ items)))
         | Nested r \<Rightarrow> Inr (ObjectFirst r (distinct_items items)))"

text \<open>\<open>either(...types)\<close> (lines 176-178).\<close>

definition either :: "types list \<Rightarrow> exn + tag_array" where
  "either types = union_arrays (map findTypes types)"

text \<open>The five ready-made requirements (lines 154-158).\<close>

definition string_req :: requirement where
  "string_req = is_object [''string'', ''undefined'', ''null'']"

definition number_req :: requirement where
  "number_req = is_object [''number'', ''undefined'', ''null'']"

definition boolean_req :: requirement where
  "boolean_req = is_object [''boolean'', ''undefined'', ''null'']"

definition object_req :: requirement where
  "object_req = is_object [''object'', ''undefined'', ''null'']"

definition array_req :: requirement where
  "array_req = is_object [''array'', ''undefined'', ''null'']"

section \<open>The combinators on a store\<close>

text \<open>
  The combinators allocate arrays and objects and write to some of them. To say which, arrays
  of type names and requirement objects are here the cells of a store, addressed by their
  index, and a value is a primitive or a reference to a cell. The store only grows: an
  allocation appends a cell, an assignment replaces one. A reference beyond the store does not
  occur in a JavaScript heap; the model reads it as something that is neither an array nor an
  object with properties. Temporaries that never leave a call (the arrays of rest parameters,
  \<open>descriptor\<close> in \<open>merge\<close>, the array literal of \<open>[].concat\<close>, the result of \<open>types.map\<close>) get
  no cell.
\<close>

type_synonym addr = nat

datatype sval =
    SUndefined
  | SNull
  | SBoolean bool
  | SNumber int
  | SString string
  | SFunction nat
  | SRef addr

datatype cell = ArrayCell "sval list" | ObjectCell "(string \<times> sval) list"

type_synonym store = "cell list"

definition alloc :: "cell \<Rightarrow> store \<Rightarrow> addr \<times> store" where
  "alloc c h = (length h, h @ [c])"

definition cell_at :: "store \<Rightarrow> addr \<Rightarrow> cell option" where
  "cell_at h a = (if a < length h then Some (h ! a) else None)"

fun truthy_st :: "sval \<Rightarrow> bool" where
  "truthy_st SUndefined = False"
| "truthy_st SNull = False"
| "truthy_st (SBoolean b) = b"
| "truthy_st (SNumber n) = (n \<noteq> 0)"
| "truthy_st (SString s) = (s \<noteq> [])"
| "truthy_st (SFunction f) = True"
| "truthy_st (SRef a) = True"

text \<open>The elements of an array, \<open>None\<close> for anything that \<open>Array.isArray\<close> rejects.\<close>

definition elements :: "store \<Rightarrow> sval \<Rightarrow> sval list option" where
  "elements h v =
     (case v of
        SRef a \<Rightarrow> (case cell_at h a of Some (ArrayCell xs) \<Rightarrow> Some xs | _ \<Rightarrow> None)
      | _ \<Rightarrow> None)"

definition isArray_st :: "store \<Rightarrow> sval \<Rightarrow> bool" where
  "isArray_st h v = (elements h v \<noteq> None)"

text \<open>
  The property read \<open>v.is\<close>: a \<open>TypeError\<close> on \<open>undefined\<close> and \<open>null\<close>, \<open>undefined\<close> where there
  is no such property.
\<close>

definition get_is :: "store \<Rightarrow> sval \<Rightarrow> exn + sval" where
  "get_is h v =
     (case v of
        SUndefined \<Rightarrow> Inl TypeError
      | SNull \<Rightarrow> Inl TypeError
      | SRef a \<Rightarrow>
          (case cell_at h a of
             Some (ObjectCell ps) \<Rightarrow>
               (case map_of ps ''is'' of Some w \<Rightarrow> Inr w | None \<Rightarrow> Inr SUndefined)
           | _ \<Rightarrow> Inr SUndefined)
      | _ \<Rightarrow> Inr SUndefined)"

text \<open>
  \<open>findTypes\<close> (line 161) on the store. A chain of \<open>is\<close> properties can run in a circle there,
  and the loop then never ends: that is the value \<open>None\<close>.
\<close>

partial_function (option) findTypes_st :: "store \<Rightarrow> sval \<Rightarrow> (exn + sval) option" where
  "findTypes_st h v =
     (if isArray_st h v then Some (Inr v)
      else
        (case get_is h v of
           Inl err \<Rightarrow> Some (Inl err)
         | Inr w \<Rightarrow> if truthy_st w then findTypes_st h w else Some (Inr v)))"

definition isTruthyType_st :: "sval \<Rightarrow> bool" where
  "isTruthyType_st type = (\<not> (type = SString ''undefined'' \<or> type = SString ''null''))"

text \<open>\<open>v.filter(isTruthyType)\<close>: a new array, or a \<open>TypeError\<close> when \<open>v\<close> is no array.\<close>

definition array_filter :: "store \<Rightarrow> sval \<Rightarrow> (exn + sval) \<times> store" where
  "array_filter h v =
     (case elements h v of
        Some xs \<Rightarrow>
          (case alloc (ArrayCell (filter isTruthyType_st xs)) h of
             (b, h') \<Rightarrow> (Inr (SRef b), h'))
      | None \<Rightarrow> (Inl TypeError, h))"

text \<open>
  \<open>Object.defineProperties\<close> on a list of properties: an existing property is overwritten in
  place, a new one is appended.
\<close>

fun define_property :: "string \<Rightarrow> sval \<Rightarrow> (string \<times> sval) list \<Rightarrow> (string \<times> sval) list" where
  "define_property name v [] = [(name, v)]"
| "define_property name v ((n, w) # ps) =
     (if n = name then (name, v) # ps else (n, w) # define_property name v ps)"

text \<open>
  The own properties of a property bag. A bag is an object; the index properties of an array
  or a string given as a bag are not modelled.
\<close>

definition own_properties :: "store \<Rightarrow> sval \<Rightarrow> (string \<times> sval) list" where
  "own_properties h props =
     (case props of
        SRef a \<Rightarrow> (case cell_at h a of Some (ObjectCell ps) \<Rightarrow> ps | _ \<Rightarrow> [])
      | _ \<Rightarrow> [])"

text \<open>
  \<open>merge(source, ...properties)\<close> (lines 200-217): it writes to \<open>source\<close> and returns it;
  \<open>Object.defineProperties\<close> throws a \<open>TypeError\<close> when \<open>source\<close> is no object.
\<close>

definition merge_st :: "store \<Rightarrow> sval \<Rightarrow> sval list \<Rightarrow> (exn + sval) \<times> store" where
  "merge_st h source properties =
     (let descriptor =
        fold (\<lambda>props descriptor.
                fold (\<lambda>(name, v) descriptor. define_property name v descriptor)
                  (own_properties h props) descriptor)
          (filter truthy_st properties) []
      in case source of
           SRef a \<Rightarrow>
             (case cell_at h a of
                Some (ObjectCell ps) \<Rightarrow>
                  (Inr source,
                   h[a := ObjectCell (fold (\<lambda>(name, v) ps. define_property name v ps) descriptor ps)])
              | _ \<Rightarrow> (Inl TypeError, h))
         | _ \<Rightarrow> (Inl TypeError, h))"

text \<open>\<open>(findTypes(req) || VALID_TYPES).filter(isTruthyType)\<close> (line 164).\<close>

definition filtered_types :: "store \<Rightarrow> sval \<Rightarrow> (exn + sval) \<times> store" where
  "filtered_types h found =
     (if truthy_st found then array_filter h found
      else
        (case alloc (ArrayCell (filter isTruthyType_st (map SString VALID_TYPES))) h of
           (b, h') \<Rightarrow> (Inr (SRef b), h')))"

text \<open>
  \<open>required(req)\<close> (lines 163-166): the literals \<open>{}\<close> and \<open>{is: types}\<close> are allocated in the
  order in which the arguments of \<open>merge\<close> are evaluated.
\<close>

definition required_st :: "store \<Rightarrow> sval \<Rightarrow> ((exn + sval) \<times> store) option" where
  "required_st h req =
     (case findTypes_st h req of
        None \<Rightarrow> None
      | Some (Inl err) \<Rightarrow> Some (Inl err, h)
      | Some (Inr found) \<Rightarrow>
          (case filtered_types h found of
             (Inl err, h1) \<Rightarrow> Some (Inl err, h1)
           | (Inr types, h1) \<Rightarrow>
               (case alloc (ObjectCell []) h1 of
                  (source, h2) \<Rightarrow>
                    (case alloc (ObjectCell [(''is'', types)]) h2 of
                       (literal, h3) \<Rightarrow> Some (merge_st h3 (SRef source) [req, SRef literal])))))"

text \<open>
  \<open>this.concat(...items)\<close>: a new array of the elements of \<open>this\<close> and of every item that is an
  array, and of the other items themselves. \<open>this\<close> being \<open>undefined\<close> or \<open>null\<close> is a
  \<open>TypeError\<close>. (A primitive \<open>this\<close> is kept as it is; JavaScript wraps it in an object.)
\<close>

definition array_concat :: "store \<Rightarrow> sval \<Rightarrow> sval list \<Rightarrow> (exn + sval) \<times> store" where
  "array_concat h this items =
     (let spread = (\<lambda>item. case elements h item of Some xs \<Rightarrow> xs | None \<Rightarrow> [item])
      in case this of
           SUndefined \<Rightarrow> (Inl TypeError, h)
         | SNull \<Rightarrow> (Inl TypeError, h)
         | _ \<Rightarrow>
             (case alloc (ArrayCell (concat (map spread (this # items)))) h of
                (b, h') \<Rightarrow> (Inr (SRef b), h')))"

text \<open>The assignment \<open>req.is = v\<close>, in strict mode.\<close>

definition set_is_st :: "store \<Rightarrow> sval \<Rightarrow> sval \<Rightarrow> (exn + unit) \<times> store" where
  "set_is_st h obj v =
     (case obj of
        SRef a \<Rightarrow>
          (case cell_at h a of
             Some (ObjectCell ps) \<Rightarrow> (Inr (), h[a := ObjectCell (define_property ''is'' v ps)])
           | _ \<Rightarrow> (Inr (), h))
      | _ \<Rightarrow> (Inl TypeError, h))"

text \<open>\<open>optional(req)\<close> (lines 169-173).\<close>

definition optional_st :: "store \<Rightarrow> sval \<Rightarrow> ((exn + sval) \<times> store) option" where
  "optional_st h req0 =
     (case alloc (ArrayCell []) h of
        (arr, h1) \<Rightarrow>
          (case alloc (ObjectCell [(''is'', SRef arr)]) h1 of
             (source, h2) \<Rightarrow>
               (case merge_st h2 (SRef source) [req0] of
                  (Inl err, h3) \<Rightarrow> Some (Inl err, h3)
                | (Inr req, h3) \<Rightarrow>
                    (case findTypes_st h3 req of
                       None \<Rightarrow> None
                     | Some (Inl err) \<Rightarrow> Some (Inl err, h3)
                     | Some (Inr found) \<Rightarrow>
                         (case array_filter h3 found of
                            (Inl err, h4) \<Rightarrow> Some (Inl err, h4)
                          | (Inr filtered, h4) \<Rightarrow>
                              (case array_concat h4 filtered [SString ''undefined'', SString ''null''] of
                                 (Inl err, h5) \<Rightarrow> Some (Inl err, h5)
                               | (Inr types, h5) \<Rightarrow>
                                   (case set_is_st h5 req types of
                                      (Inl err, h6) \<Rightarrow> Some (Inl err, h6)
                                    | (Inr u, h6) \<Rightarrow> Some (Inr req, h6))))))))"

text \<open>\<open>types.map(findTypes)\<close>, from left to right.\<close>

fun map_findTypes :: "store \<Rightarrow> sval list \<Rightarrow> (exn + sval list) option" where
  "map_findTypes h [] = Some (Inr [])"
| "map_findTypes h (v # vs) =
     (case findTypes_st h v of
        None \<Rightarrow> None
      | Some (Inl err) \<Rightarrow> Some (Inl err)
      | Some (Inr found) \<Rightarrow>
          (case map_findTypes h vs of
             None \<Rightarrow> None
           | Some (Inl err) \<Rightarrow> Some (Inl err)
           | Some (Inr founds) \<Rightarrow> Some (Inr (found # founds))))"

text \<open>
  The \<open>reduce\<close> of \<open>union\<close> (lines 229-235): every \<open>push\<close> writes to the array \<open>result\<close>.
\<close>

fun push_distinct :: "addr \<Rightarrow> sval list \<Rightarrow> store \<Rightarrow> store" where
  "push_distinct result [] h = h"
| "push_distinct result (item # items) h =
     (case cell_at h result of
        Some (ArrayCell xs) \<Rightarrow>
          push_distinct result items
            (if item \<notin> set xs then h[result := ArrayCell (xs @ [item])] else h)
      | _ \<Rightarrow> h)"

text \<open>
  The argument list that \<open>apply\<close> makes of its second argument: nothing when it is missing,
  \<open>undefined\<close> or \<open>null\<close>, the elements of an array, nothing for an object without
  \<open>length\<close>, and a \<open>TypeError\<close> for a primitive.
\<close>

definition argument_list :: "store \<Rightarrow> sval list \<Rightarrow> exn + sval list" where
  "argument_list h rest =
     (case rest of
        [] \<Rightarrow> Inr []
      | argArray # ignored \<Rightarrow>
          (case argArray of
             SUndefined \<Rightarrow> Inr []
           | SNull \<Rightarrow> Inr []
           | SRef a \<Rightarrow> (case elements h argArray of Some xs \<Rightarrow> Inr xs | None \<Rightarrow> Inr [])
           | _ \<Rightarrow> Inl TypeError))"

text \<open>\<open>union(...arrays)\<close> (lines 223-236) and \<open>either(...types)\<close> (lines 176-178).\<close>

definition union_st :: "store \<Rightarrow> sval list \<Rightarrow> (exn + sval) \<times> store" where
  "union_st h arrays =
     (case arrays of
        [] \<Rightarrow> (Inl TypeError, h)
      | this # rest \<Rightarrow>
          (case argument_list h rest of
             Inl err \<Rightarrow> (Inl err, h)
           | Inr items \<Rightarrow>
               (case array_concat h this items of
                  (Inl err, h1) \<Rightarrow> (Inl err, h1)
                | (Inr combined, h1) \<Rightarrow>
                    (case alloc (ArrayCell []) h1 of
                       (result, h2) \<Rightarrow>
                         (Inr (SRef result),
                          push_distinct result
                            (case elements h2 combined of Some xs \<Rightarrow> xs | None \<Rightarrow> [])
                            h2)))))"

definition either_st :: "store \<Rightarrow> sval list \<Rightarrow> ((exn + sval) \<times> store) option" where
  "either_st h types =
     (case map_findTypes h types of
        None \<Rightarrow> None
      | Some (Inl err) \<Rightarrow> Some (Inl err, h)
      | Some (Inr arrays) \<Rightarrow> Some (union_st h arrays))"

text \<open>
  The two models side by side: a value of the store represents an array of type names when
  it is a reference to an array of these strings, and a requirement when it is a reference
  to an object, with distinct property names, whose \<open>is\<close> is absent, falsy, or truthy and
  represents the \<open>is\<close> of the requirement.
\<close>

fun represents :: "store \<Rightarrow> sval \<Rightarrow> types \<Rightarrow> bool" where
  "represents h v (TypeArray ts) = (elements h v = Some (map SString ts))"
| "represents h v (Nested (Requirement d m Absent p g)) =
     (case v of
        SRef a \<Rightarrow>
          (case cell_at h a of
             Some (ObjectCell ps) \<Rightarrow> distinct (map fst ps) \<and> map_of ps ''is'' = None
           | _ \<Rightarrow> False)
      | _ \<Rightarrow> False)"
| "represents h v (Nested (Requirement d m Falsy p g)) =
     (case v of
        SRef a \<Rightarrow>
          (case cell_at h a of
             Some (ObjectCell ps) \<Rightarrow>
               distinct (map fst ps) \<and>
               (case map_of ps ''is'' of Some w \<Rightarrow> \<not> truthy_st w | None \<Rightarrow> False)
           | _ \<Rightarrow> False)
      | _ \<Rightarrow> False)"
| "represents h v (Nested (Requirement d m (Truthy t) p g)) =
     (case v of
        SRef a \<Rightarrow>
          (case cell_at h a of
             Some (ObjectCell ps) \<Rightarrow>
               distinct (map fst ps) \<and>
               (case map_of ps ''is'' of
                  Some w \<Rightarrow> truthy_st w \<and> represents h w t
                | None \<Rightarrow> False)
           | _ \<Rightarrow> False)
      | _ \<Rightarrow> False)"

section \<open>The union in the words of the specification\<close>

text \<open>
  The specification describes the accepted types of \<open>either\<close> as the union of all its
  arguments' type sets, "no duplicates, order-preserving by first occurrence". This is that list,
  defined from those words and not from the code, to compare \<open>distinct_items\<close> with.
\<close>

fun first_occurrences :: "string list \<Rightarrow> string list" where
  "first_occurrences [] = []"
| "first_occurrences (x # xs) = x # first_occurrences (filter (\<lambda>y. y \<noteq> x) xs)"

section \<open>Concrete inputs\<close>

text \<open>
  The requirements \<open>{is: ['string', 'string']}\<close> and \<open>{is: ['string']}\<close>, for \<open>optional\<close>.
\<close>

definition repeated_string :: requirement where
  "repeated_string = is_object [''string'', ''string'']"

definition required_string :: requirement where
  "required_string = is_object [''string'']"

text \<open>
  An options object and a requirements mapping with one key of every kind: present in the
  options, supplied by a default, produced by a transform, left out after a transform that
  threw, and left out for being absent. The option \<open>extra\<close> has no requirement.
\<close>

definition sample_options :: object where
  "sample_options = [''foo'' \<mapsto> VNumber 3, ''extra'' \<mapsto> VNumber 1]"

definition sample_requirements :: "(string \<times> requirement) list" where
  "sample_requirements =
     [(''foo'', empty_object),
      (''bar'', Requirement (Some (VNumber 5)) None Absent None None),
      (''baz'', Requirement None (Some (\<lambda>v. Returns (VString ''x''))) Absent None None),
      (''qux'', Requirement None (Some (\<lambda>v. Throws (Thrown (VString ''no'')))) Absent None None),
      (''quux'', empty_object)]"

definition nested_twice :: requirement where
  "nested_twice =
     Requirement None None
       (Truthy (Nested (Requirement None None (Truthy (Nested (is_object [''string''])))
                          None None)))
       None None"

definition throwing_transform :: requirement where
  "throwing_transform = Requirement None (Some (\<lambda>v. Throws (Error []))) Absent None None"

definition rejecting_transform :: requirement where
  "rejecting_transform =
     Requirement None (Some (\<lambda>v. Throws (RequirementError ''rejected'')))
       (Truthy (TypeArray [''bogus''])) None None"

definition default_seven :: requirement where
  "default_seven = Requirement (Some (VNumber 7)) None Absent None None"

definition empty_message :: requirement where
  "empty_message = Requirement None None Absent (Some (\<lambda>v. Returns v)) (Some [])"

definition object_with_predicate :: requirement where
  "object_with_predicate =
     Requirement None None (Truthy (TypeArray [''object'']))
       (Some (\<lambda>v. Throws (Thrown (VString ''invoked'')))) None"

definition optional_with_predicate :: requirement where
  "optional_with_predicate =
     Requirement None None (Truthy (TypeArray [''string'', ''undefined'', ''null'']))
       (Some (\<lambda>v. Throws (Thrown (VString ''invoked'')))) None"

text \<open>
  A store with the ready-made requirements \<open>string\<close> (cell 1) and \<open>number\<close> (cell 3)
  and the requirement \<open>{is: string, msg: 'm'}\<close> (cell 4).
\<close>

definition sample_store :: store where
  "sample_store =
     [ArrayCell [SString ''string'', SString ''undefined'', SString ''null''],
      ObjectCell [(''is'', SRef 0)],
      ArrayCell [SString ''number'', SString ''undefined'', SString ''null''],
      ObjectCell [(''is'', SRef 2)],
      ObjectCell [(''is'', SRef 1), (''msg'', SString ''m'')]]"

section \<open>The loop over the requirements\<close>

lemma validate_loop_append:
  "validate_loop options (pre @ rest) acc =
     (case validate_loop options pre acc of
        Inl err \<Rightarrow> Inl err
      | Inr acc' \<Rightarrow> validate_loop options rest acc')"
  by (induction pre arbitrary: acc) (auto split: sum.splits option.splits)

lemma validate_loop_same_key:
  assumes "validateKey options key req = validateKey options key req'"
  shows "validate_loop options (pre @ (key, req) # post) acc =
         validate_loop options (pre @ (key, req') # post) acc"
  using assms by (simp add: validate_loop_append split: sum.splits)

lemma validate_loop_raises:
  "validate_loop options reqs acc = Inl err \<Longrightarrow>
   \<exists>pre key req post acc'. reqs = pre @ (key, req) # post \<and>
      validate_loop options pre acc = Inr acc' \<and> validateKey options key req = Inl err"
proof (induction reqs arbitrary: acc)
  case Nil
  then show ?case by simp
next
  case (Cons a reqs)
  obtain key req where a: "a = (key, req)" by (cases a)
  show ?case
  proof (cases "validateKey options key req")
    case (Inl e)
    with Cons.prems a have "e = err" by simp
    with Inl a have "a # reqs = [] @ (key, req) # reqs \<and>
        validate_loop options [] acc = Inr acc \<and> validateKey options key req = Inl err"
      by simp
    then show ?thesis by blast
  next
    case (Inr x)
    define acc1 where "acc1 = (case x of None \<Rightarrow> acc | Some v \<Rightarrow> assign acc key v)"
    from Inr have step: "\<And>rest. validate_loop options ((key, req) # rest) acc =
        validate_loop options rest acc1"
      by (cases x) (simp_all add: acc1_def)
    with Cons.prems a have "validate_loop options reqs acc1 = Inl err" by simp
    from Cons.IH [OF this] obtain pre k r post acc' where
      d: "reqs = pre @ (k, r) # post" and
      p: "validate_loop options pre acc1 = Inr acc'" and
      e: "validateKey options k r = Inl err"
      by blast
    from d a have "a # reqs = ((key, req) # pre) @ (k, r) # post" by simp
    moreover from p step have "validate_loop options ((key, req) # pre) acc = Inr acc'" by simp
    ultimately show ?thesis using e by blast
  qed
qed

lemma validate_loop_dom:
  "validate_loop options reqs acc = Inr result \<Longrightarrow>
   dom result = dom acc \<union>
     {key. key \<noteq> ''__proto__'' \<and>
        (\<exists>req v. (key, req) \<in> set reqs \<and> validateKey options key req = Inr (Some v))}"
proof (induction reqs arbitrary: acc)
  case Nil
  then show ?case by simp
next
  case (Cons a reqs)
  obtain key req where a: "a = (key, req)" by (cases a)
  let ?rest = "{key. key \<noteq> ''__proto__'' \<and>
        (\<exists>req v. (key, req) \<in> set reqs \<and> validateKey options key req = Inr (Some v))}"
  show ?case
  proof (cases "validateKey options key req")
    case (Inl e)
    with Cons.prems a show ?thesis by simp
  next
    case (Inr x)
    show ?thesis
    proof (cases x)
      case None
      with Inr Cons.prems a have "validate_loop options reqs acc = Inr result" by simp
      from Cons.IH [OF this] Inr None a show ?thesis by auto
    next
      case (Some v)
      with Inr Cons.prems a
      have loop: "validate_loop options reqs (assign acc key v) = Inr result" by simp
      have d: "dom (assign acc key v) = (if key = ''__proto__'' then dom acc else insert key (dom acc))"
        by (simp add: assign_def)
      have "dom result = dom (assign acc key v) \<union> ?rest"
        by (rule Cons.IH [OF loop])
      then have "dom result = (if key = ''__proto__'' then dom acc else insert key (dom acc)) \<union> ?rest"
        by (simp only: d)
      with Inr Some a show ?thesis by (auto split: if_splits)
    qed
  qed
qed

lemma validateKey_included:
  assumes "validateKey options key req = Inr x"
  shows "(x \<noteq> None) =
         (key \<in> dom options \<or> (key \<notin> dom options \<and> dflt req \<noteq> None) \<or>
          (\<exists>f v. map_fn req = Some f \<and> f (snd (presence_default options key req)) = Returns v \<and>
                 v \<noteq> VUndefined))"
  using assms
  by (auto simp: validateKey_def presence_default_def transform_def Let_def
      split: prod.splits sum.splits option.splits if_splits outcome.splits exn.splits)

section \<open>The keys of the validated result\<close>

text \<open>
  When \<open>validateOptions\<close> returns normally, the result has the key \<open>k\<close>, for every \<open>k\<close> other
  than \<open>__proto__\<close>, if and only if \<open>k\<close> is a key of the requirements and (a) \<open>k in options\<close>
  holds, or it does not and the requirement declares a default, or (b) the requirement
  declares a transform that returned, on the value it was given, a value other than
  \<open>undefined\<close>. So a key of the options without a requirement is never in the result. The key
  \<open>__proto__\<close> is never an own key of the result.
\<close>

lemma result_keys:
  assumes "validateOptions options requirements = Inr result"
  shows "k \<in> dom result \<longleftrightarrow>
         k \<noteq> ''__proto__'' \<and>
         (\<exists>req. (k, req) \<in> set requirements \<and>
            (k \<in> dom (case options of None \<Rightarrow> empty_literal | Some opts \<Rightarrow> opts) \<or>
             (k \<notin> dom (case options of None \<Rightarrow> empty_literal | Some opts \<Rightarrow> opts) \<and>
              dflt req \<noteq> None) \<or>
             (\<exists>f v. map_fn req = Some f \<and>
                f (snd (presence_default
                          (case options of None \<Rightarrow> empty_literal | Some opts \<Rightarrow> opts) k req))
                  = Returns v \<and> v \<noteq> VUndefined)))"
proof -
  let ?opts = "case options of None \<Rightarrow> empty_literal | Some opts \<Rightarrow> opts"
  from assms have loop: "validate_loop ?opts requirements Map.empty = Inr result"
    by (simp add: validateOptions_def)
  have ok: "\<exists>x. validateKey ?opts key req = Inr x"
    if "(key, req) \<in> set requirements" for key req
  proof (cases "validateKey ?opts key req")
    case (Inl e)
    from that obtain pre post where "requirements = pre @ (key, req) # post"
      by (auto simp: in_set_conv_decomp)
    with loop Inl show ?thesis by (simp add: validate_loop_append split: sum.splits)
  next
    case (Inr x)
    then show ?thesis by blast
  qed
  have "k \<in> dom result \<longleftrightarrow>
          k \<noteq> ''__proto__'' \<and>
          (\<exists>req v. (k, req) \<in> set requirements \<and> validateKey ?opts k req = Inr (Some v))"
    using validate_loop_dom [OF loop] by auto
  also have "\<dots> \<longleftrightarrow>
          k \<noteq> ''__proto__'' \<and>
          (\<exists>req. (k, req) \<in> set requirements \<and>
             (\<exists>x. validateKey ?opts k req = Inr x \<and> x \<noteq> None))"
    by auto
  also have "\<dots> \<longleftrightarrow> k \<noteq> ''__proto__'' \<and> (\<exists>req. (k, req) \<in> set requirements \<and>
            (k \<in> dom ?opts \<or> (k \<notin> dom ?opts \<and> dflt req \<noteq> None) \<or>
             (\<exists>f v. map_fn req = Some f \<and>
                f (snd (presence_default ?opts k req)) = Returns v \<and> v \<noteq> VUndefined)))"
    using ok validateKey_included by (metis (no_types, lifting))
  finally show ?thesis .
qed

lemma sample_result:
  "validateOptions (Some sample_options) sample_requirements
      = Inr [''foo'' \<mapsto> VNumber 3, ''bar'' \<mapsto> VNumber 5, ''baz'' \<mapsto> VString ''x'']"
  by (simp add: validateOptions_def sample_options_def sample_requirements_def validateKey_def
        presence_default_def transform_def type_check_def predicate_check_def empty_object_def
        assign_def)

text \<open>
  A falsy \<open>options\<close> is the literal \<open>{}\<close>, in which \<open>'toString' in options\<close> holds: the
  inherited method is the value of the key, and the result has it as an own property.
\<close>

lemma inherited_key:
  "validateOptions None [(''toString'', empty_object)] = Inr [''toString'' \<mapsto> VFunction 8]"
  by (simp add: validateOptions_def validateKey_def presence_default_def transform_def
        type_check_def predicate_check_def empty_object_def assign_def empty_literal_def
        Object_prototype_def)

text \<open>
  Claim C4 says that the result has every key of the requirements that is present in the
  options. The code evaluated at requirements and options that have \<open>__proto__\<close> as an own
  property, as \<open>JSON.parse\<close> makes them, with the requirement \<open>{}\<close> and the value 5: the key
  is in both, the value passes the empty requirement, line 111 includes it, and the
  assignment of line 112 runs the setter that the result inherits from \<open>Object.prototype\<close>.
  The result has no own property.
\<close>

theorem proto_key_not_in_result:
  "''__proto__'' \<in> dom (empty_literal(''__proto__'' \<mapsto> VNumber 5)) \<and>
   validateOptions (Some (empty_literal(''__proto__'' \<mapsto> VNumber 5)))
       [(''__proto__'', empty_object)] = Inr Map.empty"
  by (simp add: validateOptions_def validateKey_def presence_default_def transform_def
        type_check_def predicate_check_def empty_object_def assign_def)

section \<open>The combinators\<close>

lemma fold_push_first_occurrences:
  "fold (\<lambda>item result. if item \<notin> set result then result @ [item] else result) xs acc
     = acc @ first_occurrences (filter (\<lambda>x. x \<notin> set acc) xs)"
proof (induction xs arbitrary: acc)
  case Nil
  then show ?case by simp
next
  case (Cons x xs)
  have eq: "filter (\<lambda>y. y \<notin> set (acc @ [x])) xs
              = filter (\<lambda>y. y \<noteq> x) (filter (\<lambda>y. y \<notin> set acc) xs)"
    by (induction xs) auto
  show ?case
  proof (cases "x \<in> set acc")
    case True
    then show ?thesis using Cons.IH [of acc] by simp
  next
    case False
    then show ?thesis using Cons.IH [of "acc @ [x]"] eq by simp
  qed
qed

lemma distinct_items_first_occurrences: "distinct_items xs = first_occurrences xs"
  by (simp add: distinct_items_def fold_push_first_occurrences)

lemma set_first_occurrences: "set (first_occurrences xs) = set xs"
  by (induction xs rule: first_occurrences.induct) auto

lemma distinct_first_occurrences: "distinct (first_occurrences xs)"
  by (induction xs rule: first_occurrences.induct) (auto simp: set_first_occurrences)

text \<open>
  With two arguments that resolve to arrays, \<open>either\<close> returns the union the specification
  describes.
\<close>

lemma either_two:
  "findTypes a = TypeArray xs \<Longrightarrow> findTypes b = TypeArray ys \<Longrightarrow>
   either [a, b] = Inr (Tags (first_occurrences (xs @ ys)))"
  by (simp add: either_def distinct_items_first_occurrences)

text \<open>Every argument after the second is ignored, and no argument at all is a \<open>TypeError\<close>.\<close>

lemma either_ignores_rest: "either (a # b # rest) = either [a, b]"
  by (simp add: either_def)

lemma either_none: "either [] = Inl TypeError"
  by (simp add: either_def)

text \<open>
  Claim C1 says that \<open>either\<close> returns the union of the type sets of all its arguments, also
  of three or more. The code evaluated at \<open>either(string, number, boolean)\<close>, the three
  ready-made requirements: the result is the union of the first two, and \<open>boolean\<close>, which
  only the third argument accepts, is not in it.
\<close>

theorem either_three_arguments:
  "either [Nested string_req, Nested number_req, Nested boolean_req]
     = Inr (Tags [''string'', ''undefined'', ''null'', ''number''])"
  by (simp add: either_def string_req_def number_req_def boolean_req_def is_object_def
        distinct_items_def)

lemma merge_literal_one:
  "merge (is_object ts) [r] =
     Requirement (dflt r) (map_fn r)
       (case is_types r of Absent \<Rightarrow> Truthy (TypeArray ts) | Falsy \<Rightarrow> Falsy | Truthy t \<Rightarrow> Truthy t)
       (ok_fn r) (msg r)"
  by (cases r) (simp add: merge_def define_properties_def is_object_def empty_object_def
        split: option.splits property.splits)

lemma isTruthyType_simps:
  "\<not> isTruthyType ''undefined''" "\<not> isTruthyType ''null''"
  by (simp_all add: isTruthyType_def)

lemma optional_result:
  assumes "optional r = Inr r1"
  shows "\<exists>ts0. findTypes (Nested (merge (is_object []) [r])) = TypeArray ts0 \<and>
           r1 = Requirement (dflt r) (map_fn r)
                  (Truthy (TypeArray (filter isTruthyType ts0 @ [''undefined'', ''null''])))
                  (ok_fn r) (msg r)"
  using assms
  by (auto simp: optional_def Let_def set_is_def merge_literal_one split: types.splits)

lemma optional_fixed:
  "optional (Requirement d m
      (Truthy (TypeArray (filter isTruthyType ts0 @ [''undefined'', ''null'']))) p g)
   = Inr (Requirement d m
      (Truthy (TypeArray (filter isTruthyType ts0 @ [''undefined'', ''null'']))) p g)"
  by (simp add: optional_def Let_def set_is_def merge_literal_one isTruthyType_simps)

lemma count_optional_tags:
  "count_list (filter isTruthyType ts0 @ [''undefined'', ''null'']) ''undefined'' = 1"
  "count_list (filter isTruthyType ts0 @ [''undefined'', ''null'']) ''null'' = 1"
  by (induction ts0) (simp_all add: isTruthyType_def)

lemma findTypes_merge_literal:
  "findTypes (Nested r) = TypeArray ts \<Longrightarrow>
   findTypes (Nested (merge (is_object xs) [r])) = TypeArray ts"
  by (cases r; cases "is_types r") (auto simp: merge_literal_one)

text \<open>
  Claim C9 says that the array of \<open>optional(optional(r))\<close> has no duplicate entries. Line 171
  filters \<open>undefined\<close> and \<open>null\<close> out and nothing else: a name that stands twice in the array
  of \<open>r\<close> stands twice in the array of \<open>optional(r)\<close> and of \<open>optional(optional(r))\<close>.
\<close>

theorem optional_keeps_duplicates_counterexample:
  "optional repeated_string =
     Inr (is_object [''string'', ''string'', ''undefined'', ''null'']) \<and>
   optional (is_object [''string'', ''string'', ''undefined'', ''null'']) =
     Inr (is_object [''string'', ''string'', ''undefined'', ''null'']) \<and>
   \<not> distinct [''string'', ''string'', ''undefined'', ''null'']"
  by (simp add: optional_def repeated_string_def is_object_def merge_def define_properties_def
        empty_object_def set_is_def isTruthyType_def)

text \<open>
  Claim C9 as amended. \<open>optional(r)\<close> returns when \<open>r\<close> has no \<open>is\<close>, and when \<open>findTypes\<close>
  resolves \<open>r\<close> to an array. What it returns is \<open>r\<close> with another \<open>is\<close>: the names
  of the array that \<open>r\<close> resolves to (none if \<open>r\<close> has no \<open>is\<close>) other than \<open>undefined\<close> and
  \<open>null\<close>, in their order, followed by \<open>undefined\<close> and \<open>null\<close>, each of which stands in it
  exactly once. \<open>optional\<close> of that requirement returns the same requirement again, so
  \<open>optional(optional(r))\<close> has the array of \<open>optional(r)\<close>; and where \<open>optional(r)\<close> throws,
  so does the double call.
\<close>

theorem optional_idempotent:
  "(case optional r of Inl e \<Rightarrow> Inl e | Inr r1 \<Rightarrow> optional r1) = optional r \<and>
   (is_types r = Absent \<or> (\<exists>ts0. findTypes (Nested r) = TypeArray ts0) \<longrightarrow>
      (\<exists>r1. optional r = Inr r1)) \<and>
   (\<forall>r1. optional r = Inr r1 \<longrightarrow>
      (\<exists>ts0. (is_types r = Absent \<and> ts0 = [] \<or> findTypes (Nested r) = TypeArray ts0) \<and>
         r1 = Requirement (dflt r) (map_fn r)
                (Truthy (TypeArray (filter isTruthyType ts0 @ [''undefined'', ''null''])))
                (ok_fn r) (msg r) \<and>
         optional r1 = Inr r1 \<and>
         count_list (filter isTruthyType ts0 @ [''undefined'', ''null'']) ''undefined'' = 1 \<and>
         count_list (filter isTruthyType ts0 @ [''undefined'', ''null'']) ''null'' = 1))"
proof -
  have resolved: "\<exists>ts0. (is_types r = Absent \<and> ts0 = [] \<or> findTypes (Nested r) = TypeArray ts0) \<and>
         r1 = Requirement (dflt r) (map_fn r)
                (Truthy (TypeArray (filter isTruthyType ts0 @ [''undefined'', ''null''])))
                (ok_fn r) (msg r)"
    if h: "optional r = Inr r1" for r1
  proof -
    from optional_result [OF h] obtain ts0 where
      ft: "findTypes (Nested (merge (is_object []) [r])) = TypeArray ts0" and
      r1: "r1 = Requirement (dflt r) (map_fn r)
                  (Truthy (TypeArray (filter isTruthyType ts0 @ [''undefined'', ''null''])))
                  (ok_fn r) (msg r)"
      by blast
    have "is_types r = Absent \<and> ts0 = [] \<or> findTypes (Nested r) = TypeArray ts0"
    proof (cases "is_types r")
      case Absent
      with ft have "ts0 = []" by (cases r) (simp add: merge_literal_one)
      with Absent show ?thesis by simp
    next
      case Falsy
      with ft show ?thesis by (cases r) (simp add: merge_literal_one)
    next
      case (Truthy t)
      with ft show ?thesis by (cases r) (simp add: merge_literal_one)
    qed
    with r1 show ?thesis by blast
  qed
  have fixed: "optional r1 = Inr r1" if "optional r = Inr r1" for r1
    using optional_result [OF that] optional_fixed by auto
  have first: "(case optional r of Inl e \<Rightarrow> Inl e | Inr r1 \<Rightarrow> optional r1) = optional r"
    using fixed by (cases "optional r") auto
  have returns: "\<exists>r1. optional r = Inr r1"
    if "is_types r = Absent \<or> (\<exists>ts0. findTypes (Nested r) = TypeArray ts0)"
  proof -
    have "\<exists>ts. findTypes (Nested (merge (is_object []) [r])) = TypeArray ts"
    proof (cases "is_types r = Absent")
      case True
      then show ?thesis by (cases r) (simp add: merge_literal_one)
    next
      case False
      with that obtain ts0 where "findTypes (Nested r) = TypeArray ts0" by blast
      from findTypes_merge_literal [OF this] show ?thesis by blast
    qed
    then show ?thesis by (auto simp: optional_def Let_def)
  qed
  have third: "\<exists>ts0. (is_types r = Absent \<and> ts0 = [] \<or> findTypes (Nested r) = TypeArray ts0) \<and>
         r1 = Requirement (dflt r) (map_fn r)
                (Truthy (TypeArray (filter isTruthyType ts0 @ [''undefined'', ''null''])))
                (ok_fn r) (msg r) \<and>
         optional r1 = Inr r1 \<and>
         count_list (filter isTruthyType ts0 @ [''undefined'', ''null'']) ''undefined'' = 1 \<and>
         count_list (filter isTruthyType ts0 @ [''undefined'', ''null'']) ''null'' = 1"
    if h: "optional r = Inr r1" for r1
  proof -
    from resolved [OF h] obtain ts0 where
      a: "is_types r = Absent \<and> ts0 = [] \<or> findTypes (Nested r) = TypeArray ts0" and
      b: "r1 = Requirement (dflt r) (map_fn r)
                (Truthy (TypeArray (filter isTruthyType ts0 @ [''undefined'', ''null''])))
                (ok_fn r) (msg r)"
      by blast
    from a b fixed [OF h] count_optional_tags [of ts0] show ?thesis by blast
  qed
  show ?thesis
    apply (rule conjI)
     apply (rule first)
    apply (rule conjI)
     apply (rule impI)
     apply (erule returns)
    apply (intro allI impI)
    apply (erule third)
    done
qed

theorem optional_idempotent_witness:
  "optional required_string = Inr string_req \<and>
   optional string_req = Inr string_req \<and>
   is_types required_string = Truthy (TypeArray [''string''])"
proof -
  let ?r = required_string
  have f: "findTypes (Nested ?r) = TypeArray [''string'']"
    by (simp add: required_string_def is_object_def)
  then have "is_types ?r = Absent \<or> (\<exists>ts0. findTypes (Nested ?r) = TypeArray ts0)" by blast
  with optional_idempotent [of ?r] obtain r1 where h: "optional ?r = Inr r1" by blast
  with optional_idempotent [of ?r] obtain ts0 where
    a: "is_types ?r = Absent \<and> ts0 = [] \<or> findTypes (Nested ?r) = TypeArray ts0" and
    b: "r1 = Requirement (dflt ?r) (map_fn ?r)
              (Truthy (TypeArray (filter isTruthyType ts0 @ [''undefined'', ''null''])))
              (ok_fn ?r) (msg ?r)" and
    c: "optional r1 = Inr r1"
    by blast
  from a f have "ts0 = [''string'']" by (simp add: required_string_def is_object_def)
  with b have "r1 = string_req"
    by (simp add: required_string_def string_req_def is_object_def isTruthyType_def)
  with h c show ?thesis by (simp add: required_string_def is_object_def)
qed

section \<open>The steps of the loop body\<close>

lemmas run_defs = validateOptions_def validateKey_def presence_default_def transform_def
  type_check_def predicate_check_def getTypeOf_def new_RequirementError_def VALID_TYPES_def
  assign_def empty_literal_def Object_prototype_def

lemma new_RequirementError_cong:
  "msg r = msg r' \<Longrightarrow> is_types r = is_types r' \<Longrightarrow>
   new_RequirementError key r = new_RequirementError key r'"
  unfolding new_RequirementError_def by (erule subst, erule subst) (rule refl)

lemma type_check_cong:
  "msg r = msg r' \<Longrightarrow> is_types r = is_types r' \<Longrightarrow> type_check key r v = type_check key r' v"
  using new_RequirementError_cong [of r r' key]
  by (simp add: type_check_def cong: property.case_cong types.case_cong option.case_cong if_cong)

lemma predicate_check_cong:
  "msg r = msg r' \<Longrightarrow> is_types r = is_types r' \<Longrightarrow> ok_fn r = ok_fn r' \<Longrightarrow>
   predicate_check key r b v = predicate_check key r' b v"
  using new_RequirementError_cong [of r r' key]
  by (simp add: predicate_check_def cong: option.case_cong outcome.case_cong if_cong)

lemma validateKey_transform_RequirementError:
  assumes "map_fn req = Some f" and "f (snd (presence_default options key req)) = Throws (RequirementError m)"
  shows "validateKey options key req = Inl (RequirementError m)"
  using assms by (cases "presence_default options key req") (simp add: validateKey_def transform_def)

lemma validateKey_transform_other:
  assumes "map_fn req = Some f" and "f (snd (presence_default options key req)) = Throws err"
    and "\<And>m. err \<noteq> RequirementError m"
  shows "validateKey options key req =
         validateKey options key (Requirement (dflt req) None (is_types req) (ok_fn req) (msg req))"
proof -
  have pd: "presence_default options key (Requirement (dflt req) None (is_types req) (ok_fn req) (msg req))
          = presence_default options key req"
    by (simp add: presence_default_def)
  have tc: "\<And>v. type_check key (Requirement (dflt req) None (is_types req) (ok_fn req) (msg req)) v = type_check key req v"
    by (rule type_check_cong) simp_all
  have pc: "\<And>b v. predicate_check key (Requirement (dflt req) None (is_types req) (ok_fn req) (msg req)) b v = predicate_check key req b v"
    by (rule predicate_check_cong) simp_all
  obtain k v0 where p: "presence_default options key req = (k, v0)" by (cases "presence_default options key req")
  with assms(2) have fv: "f v0 = Throws err" by simp
  have t1: "transform req v0 = Inr (v0, True)"
    using assms(1,3) fv by (cases err) (auto simp: transform_def)
  have t2: "transform (Requirement (dflt req) None (is_types req) (ok_fn req) (msg req)) v0 = Inr (v0, False)"
    by (simp add: transform_def)
  show ?thesis
    unfolding validateKey_def pd p tc pc by (simp add: t1 t2 split: sum.splits)
qed

section \<open>A transform that throws\<close>

text \<open>
  Claim C2. Let the requirement of \<open>key\<close> declare a transform that throws \<open>err\<close> on the value
  it is given (the option's value after the default step). If \<open>err\<close> is a
  \<open>RequirementError\<close>, \<open>validateOptions\<close> throws it as soon as it reaches the key, that is
  whenever the earlier keys validate. If \<open>err\<close> is anything else, the call behaves as if the
  requirement declared no transform: the type check, the predicate and the inclusion all
  see the value from before the transform, and nothing of \<open>err\<close> reaches the caller.
\<close>

theorem transform_failure:
  assumes "map_fn req = Some f"
    and "f (snd (presence_default (case options of None \<Rightarrow> empty_literal | Some opts \<Rightarrow> opts) key req)) = Throws err"
  shows "(\<forall>m. err = RequirementError m \<longrightarrow>
            (\<forall>result. validateOptions options pre = Inr result \<longrightarrow>
               validateOptions options (pre @ (key, req) # post) = Inl err)) \<and>
         ((\<forall>m. err \<noteq> RequirementError m) \<longrightarrow>
            validateOptions options (pre @ (key, req) # post) =
            validateOptions options
              (pre @ (key, Requirement (dflt req) None (is_types req) (ok_fn req) (msg req)) # post))"
proof (intro conjI allI impI)
  fix m result
  assume e: "err = RequirementError m" and p: "validateOptions options pre = Inr result"
  from validateKey_transform_RequirementError [OF assms(1)] assms(2) e
  have "validateKey (case options of None \<Rightarrow> empty_literal | Some opts \<Rightarrow> opts) key req = Inl err" by simp
  with p show "validateOptions options (pre @ (key, req) # post) = Inl err"
    by (simp add: validateOptions_def validate_loop_append)
next
  assume "\<forall>m. err \<noteq> RequirementError m"
  then have "\<And>m. err \<noteq> RequirementError m" by blast
  from validateKey_transform_other [OF assms this]
  show "validateOptions options (pre @ (key, req) # post) =
            validateOptions options
              (pre @ (key, Requirement (dflt req) None (is_types req) (ok_fn req) (msg req)) # post)"
    unfolding validateOptions_def by (rule validate_loop_same_key)
qed

theorem transform_failure_witness:
  "validateOptions (Some [''foo'' \<mapsto> VNumber 3]) ([] @ (''foo'', throwing_transform) # [])
     = Inr [''foo'' \<mapsto> VNumber 3] \<and>
   validateOptions (Some [''foo'' \<mapsto> VNumber 3]) ([] @ (''foo'', rejecting_transform) # [])
     = Inl (RequirementError ''rejected'')"
proof -
  let ?options = "Some [''foo'' \<mapsto> VNumber 3]"
  have m1: "map_fn throwing_transform = Some (\<lambda>v. Throws (Error []))"
    by (simp add: throwing_transform_def)
  have "validateOptions ?options ([] @ (''foo'', throwing_transform) # []) =
        validateOptions ?options
          ([] @ (''foo'', Requirement (dflt throwing_transform) None (is_types throwing_transform)
                   (ok_fn throwing_transform) (msg throwing_transform)) # [])"
    using transform_failure [OF m1, where options = ?options and key = "''foo''" and err = "Error []"
            and pre = "[]" and post = "[]"] by simp
  also have "\<dots> = Inr [''foo'' \<mapsto> VNumber 3]"
    by (simp add: run_defs throwing_transform_def)
  finally have first: "validateOptions ?options ([] @ (''foo'', throwing_transform) # [])
     = Inr [''foo'' \<mapsto> VNumber 3]" .
  have m2: "map_fn rejecting_transform = Some (\<lambda>v. Throws (RequirementError ''rejected''))"
    by (simp add: rejecting_transform_def)
  have pre: "validateOptions ?options [] = Inr Map.empty" by (simp add: validateOptions_def)
  have second: "validateOptions ?options ([] @ (''foo'', rejecting_transform) # [])
     = Inl (RequirementError ''rejected'')"
    using transform_failure [OF m2, where options = ?options and key = "''foo''"
            and err = "RequirementError ''rejected''" and pre = "[]" and post = "[]"] pre
    by simp
  from first second show ?thesis ..
qed

section \<open>The default\<close>

lemma validate_loop_options_cong:
  assumes "\<And>k r. (k, r) \<in> set reqs \<Longrightarrow> options k = options' k"
  shows "validate_loop options reqs acc = validate_loop options' reqs acc"
  using assms
proof (induction reqs arbitrary: acc)
  case Nil
  then show ?case by simp
next
  case (Cons a reqs)
  obtain key req where a: "a = (key, req)" by (cases a)
  have "options key = options' key" using Cons.prems [of key req] a by simp
  then have "validateKey options key req = validateKey options' key req"
    by (simp add: validateKey_def presence_default_def)
  moreover have "\<And>acc. validate_loop options reqs acc = validate_loop options' reqs acc"
    by (rule Cons.IH) (use Cons.prems in auto)
  ultimately show ?case using a by (simp split: sum.splits option.splits)
qed

lemma validateKey_default:
  assumes "dflt req = Some d"
  shows "validateKey options key req =
         validateKey (options(key \<mapsto> (case options key of None \<Rightarrow> d | Some v \<Rightarrow> if v = VUndefined then d else v)))
            key (Requirement None (map_fn req) (is_types req) (ok_fn req) (msg req))"
proof -
  let ?req' = "Requirement None (map_fn req) (is_types req) (ok_fn req) (msg req)"
  let ?v = "case options key of None \<Rightarrow> d | Some v \<Rightarrow> if v = VUndefined then d else v"
  have pd: "presence_default (options(key \<mapsto> ?v)) key ?req' = presence_default options key req"
    using assms by (simp add: presence_default_def split: option.splits)
  have tr: "\<And>v. transform ?req' v = transform req v" by (simp add: transform_def)
  have tc: "\<And>v. type_check key ?req' v = type_check key req v"
    by (rule type_check_cong) simp_all
  have pc: "\<And>b v. predicate_check key ?req' b v = predicate_check key req b v"
    by (rule predicate_check_cong) simp_all
  have mf: "map_fn ?req' = map_fn req" by simp
  show ?thesis unfolding validateKey_def pd tr tc pc mf ..
qed

lemma validate_loop_default:
  assumes "dflt req = Some d"
    and "\<forall>(k, r) \<in> set (pre @ post). k \<noteq> key"
  shows "validate_loop opts (pre @ (key, req) # post) acc =
         validate_loop
           (opts(key \<mapsto> (case opts key of None \<Rightarrow> d | Some v \<Rightarrow> if v = VUndefined then d else v)))
           (pre @ (key, Requirement None (map_fn req) (is_types req) (ok_fn req) (msg req)) # post) acc"
proof -
  let ?v = "case opts key of None \<Rightarrow> d | Some v \<Rightarrow> if v = VUndefined then d else v"
  let ?req' = "Requirement None (map_fn req) (is_types req) (ok_fn req) (msg req)"
  have pre: "\<And>acc. validate_loop (opts(key \<mapsto> ?v)) pre acc = validate_loop opts pre acc"
    by (rule validate_loop_options_cong) (use assms(2) in auto)
  have post: "\<And>acc. validate_loop (opts(key \<mapsto> ?v)) post acc = validate_loop opts post acc"
    by (rule validate_loop_options_cong) (use assms(2) in auto)
  have k: "validateKey (opts(key \<mapsto> ?v)) key ?req' = validateKey opts key req"
    using validateKey_default [OF assms(1), of opts key] by simp
  show ?thesis
    unfolding validate_loop_append validate_loop.simps prod.case pre post k ..
qed

text \<open>
  Claim C5 says that the default replaces the value only when the key is absent, and that a
  key present with the value \<open>undefined\<close> keeps it. The code tests
  \<open>optsVal === undefined\<close> (line 67), so a key that is present with the value \<open>undefined\<close>
  gets the default as well.
\<close>

theorem default_for_undefined_counterexample:
  "[''foo'' \<mapsto> VUndefined] ''foo'' = Some VUndefined \<and>
   validateOptions (Some [''foo'' \<mapsto> VUndefined]) [(''foo'', default_seven)]
     = Inr [''foo'' \<mapsto> VNumber 7] \<and>
   validateOptions (Some [''foo'' \<mapsto> VUndefined]) [(''foo'', default_seven)]
     \<noteq> Inr [''foo'' \<mapsto> VUndefined]"
proof -
  have run: "validateOptions (Some [''foo'' \<mapsto> VUndefined]) [(''foo'', default_seven)]
     = Inr [''foo'' \<mapsto> VNumber 7]"
    by (simp add: run_defs default_seven_def)
  have "[''foo'' \<mapsto> VNumber 7] ''foo'' \<noteq> [''foo'' \<mapsto> VUndefined] ''foo''" by simp
  then have "[''foo'' \<mapsto> VNumber 7] \<noteq> [''foo'' \<mapsto> VUndefined]" by metis
  with run show ?thesis by simp
qed

text \<open>
  Claim C5 as amended. A requirement with the default \<open>d\<close> validates as the same requirement
  without a default does on the options in which the key is bound to \<open>d\<close> when it was absent
  or bound to \<open>undefined\<close>, and to its own value otherwise. The key is absent when
  \<open>key in options\<close> is false: no own property and no inherited one, so that in \<open>{}\<close>,
  which a falsy \<open>options\<close> stands for, the key \<open>toString\<close> is present and keeps its inherited
  value. The other keys of the requirements differ from \<open>key\<close>, as the keys of an object do.
\<close>

theorem default_substitution:
  assumes "dflt req = Some d"
    and "\<forall>(k, r) \<in> set (pre @ post). k \<noteq> key"
  shows "validateOptions options (pre @ (key, req) # post) =
         validateOptions
           (Some ((case options of None \<Rightarrow> empty_literal | Some opts \<Rightarrow> opts)
              (key \<mapsto> (case (case options of None \<Rightarrow> empty_literal | Some opts \<Rightarrow> opts) key of
                          None \<Rightarrow> d
                        | Some v \<Rightarrow> if v = VUndefined then d else v))))
           (pre @ (key, Requirement None (map_fn req) (is_types req) (ok_fn req) (msg req)) # post)"
  unfolding validateOptions_def option.case
  by (rule validate_loop_default [OF assms])

theorem default_substitution_witness:
  "validateOptions (Some [''bar'' \<mapsto> VNumber 1])
     ([(''bar'', empty_object)] @ (''foo'', default_seven) # [])
   = validateOptions (Some [''bar'' \<mapsto> VNumber 1, ''foo'' \<mapsto> VNumber 7])
     ([(''bar'', empty_object)] @ (''foo'', empty_object) # []) \<and>
   validateOptions (Some [''bar'' \<mapsto> VNumber 1])
     ([(''bar'', empty_object)] @ (''foo'', default_seven) # [])
   = Inr [''bar'' \<mapsto> VNumber 1, ''foo'' \<mapsto> VNumber 7] \<and>
   validateOptions None ([] @ (''toString'', default_seven) # [])
   = validateOptions (Some (empty_literal(''toString'' \<mapsto> VFunction 8)))
       ([] @ (''toString'', empty_object) # []) \<and>
   validateOptions None ([] @ (''toString'', default_seven) # [])
   = Inr [''toString'' \<mapsto> VFunction 8]"
proof -
  have d: "dflt default_seven = Some (VNumber 7)" by (simp add: default_seven_def)
  have others: "\<forall>(k, r) \<in> set ([(''bar'', empty_object)] @ []). k \<noteq> ''foo''" by simp
  have r: "Requirement None (map_fn default_seven) (is_types default_seven) (ok_fn default_seven)
             (msg default_seven) = empty_object"
    by (simp add: default_seven_def empty_object_def)
  have eq: "validateOptions (Some [''bar'' \<mapsto> VNumber 1])
     ([(''bar'', empty_object)] @ (''foo'', default_seven) # [])
   = validateOptions (Some [''bar'' \<mapsto> VNumber 1, ''foo'' \<mapsto> VNumber 7])
     ([(''bar'', empty_object)] @ (''foo'', empty_object) # [])"
    using default_substitution [OF d others, where options = "Some [''bar'' \<mapsto> VNumber 1]"] r by simp
  have run: "validateOptions (Some [''bar'' \<mapsto> VNumber 1, ''foo'' \<mapsto> VNumber 7])
     ([(''bar'', empty_object)] @ (''foo'', empty_object) # [])
     = Inr [''bar'' \<mapsto> VNumber 1, ''foo'' \<mapsto> VNumber 7]"
    by (simp add: run_defs empty_object_def)
  have none: "\<forall>(k, r) \<in> set ([] @ []). k \<noteq> ''toString''" by simp
  have inherited: "empty_literal ''toString'' = Some (VFunction 8)"
    by (simp add: empty_literal_def Object_prototype_def)
  have eq2: "validateOptions None ([] @ (''toString'', default_seven) # [])
   = validateOptions (Some (empty_literal(''toString'' \<mapsto> VFunction 8)))
       ([] @ (''toString'', empty_object) # [])"
    using default_substitution [OF d none, where options = None] r inherited
    by simp
  have run2: "validateOptions (Some (empty_literal(''toString'' \<mapsto> VFunction 8)))
       ([] @ (''toString'', empty_object) # []) = Inr [''toString'' \<mapsto> VFunction 8]"
    by (simp add: validateOptions_def validateKey_def presence_default_def transform_def
          type_check_def predicate_check_def assign_def empty_object_def)
  from eq run eq2 run2 show ?thesis by simp
qed

section \<open>Nested requirements in the type check\<close>

text \<open>
  Where \<open>is\<close> is an array of valid type names, or a requirement whose own \<open>is\<close> is one, the
  type check compares the classified type of the value with that array.
\<close>

lemma type_check_resolved:
  assumes "is_types req = Truthy (TypeArray ts) \<or>
           (\<exists>r. is_types req = Truthy (Nested r) \<and> is_types r = Truthy (TypeArray ts))"
    and "set ts \<subseteq> set VALID_TYPES"
  shows "type_check key req v =
           (if getTypeOf v \<in> set ts
            then Inr (''undefined'' \<in> set ts \<and> ''null'' \<in> set ts)
            else Inl (new_RequirementError key req))"
proof -
  have "find (\<lambda>type. type \<notin> set VALID_TYPES) ts = None"
    using assms(2) by (auto simp: find_None_iff)
  with assms(1) show ?thesis by (auto simp: type_check_def)
qed

text \<open>
  Claim C3 says that \<open>validateOptions\<close> follows \<open>is\<close> through any number of nested
  requirements. The code evaluated at \<open>{is: {is: {is: ['string']}}}\<close> and the number 5:
  \<open>findTypes\<close> resolves the requirement to \<open>['string']\<close>, the classified type of the value is
  \<open>number\<close>, and \<open>validateOptions\<close> returns the value unchecked, since line 87 takes a single
  step and finds no array.
\<close>

theorem nested_twice_not_checked:
  "findTypes (Nested nested_twice) = TypeArray [''string''] \<and>
   getTypeOf (VNumber 5) = ''number'' \<and>
   validateOptions (Some [''foo'' \<mapsto> VNumber 5]) [(''foo'', nested_twice)]
     = Inr [''foo'' \<mapsto> VNumber 5]"
  by (simp add: nested_twice_def is_object_def validateOptions_def validateKey_def
        presence_default_def transform_def type_check_def predicate_check_def getTypeOf_def
        assign_def)

section \<open>The message of a failure\<close>

lemma validateKey_RequirementError:
  assumes "validateKey options key req = Inl (RequirementError m)"
  shows "(\<exists>f. map_fn req = Some f \<and>
            f (snd (presence_default options key req)) = Throws (RequirementError m)) \<or>
         (\<exists>p v threw. ok_fn req = Some p \<and>
            transform req (snd (presence_default options key req)) = Inr (v, threw) \<and>
            p v = Throws (RequirementError m)) \<or>
         new_RequirementError key req = RequirementError m"
proof -
  obtain k v0 where pd: "presence_default options key req = (k, v0)"
    by (cases "presence_default options key req")
  show ?thesis
  proof (cases "transform req v0")
    case (Inl e)
    with assms pd have "e = RequirementError m" by (simp add: validateKey_def)
    with Inl have "\<exists>f. map_fn req = Some f \<and> f v0 = Throws (RequirementError m)"
      by (auto simp: transform_def split: option.splits outcome.splits exn.splits)
    with pd show ?thesis by simp
  next
    case (Inr a)
    obtain v threw where a: "a = (v, threw)" by (cases a)
    show ?thesis
    proof (cases "type_check key req v")
      case (Inl e)
      with assms pd Inr a have "e = RequirementError m" by (simp add: validateKey_def)
      with Inl have "new_RequirementError key req = RequirementError m"
        by (auto simp: type_check_def Let_def split: property.splits types.splits option.splits if_splits)
      then show ?thesis by blast
    next
      case tc: (Inr isOptional)
      show ?thesis
      proof (cases "predicate_check key req isOptional v")
        case (Inl e)
        with assms pd Inr a tc have "e = RequirementError m" by (simp add: validateKey_def)
        with Inl have "(\<exists>p. ok_fn req = Some p \<and> p v = Throws (RequirementError m)) \<or>
                 new_RequirementError key req = RequirementError m"
          by (auto simp: predicate_check_def split: option.splits outcome.splits if_splits)
        with pd Inr a show ?thesis by auto
      next
        case (Inr u)
        with assms pd \<open>transform req v0 = Inr a\<close> a tc show ?thesis
          by (simp add: validateKey_def split: if_splits)
      qed
    qed
  qed
qed

lemma new_RequirementError_message:
  assumes "new_RequirementError key req = RequirementError m"
  shows \<open>(\<forall>c. msg req = Some c \<and> c \<noteq> [] \<longrightarrow> m = c) \<and>
         (msg req = None \<or> msg req = Some [] \<longrightarrow>
            (\<forall>ts. is_types req = Truthy (TypeArray ts) \<longrightarrow>
               m = ''The option "'' @ key @ ''" must be one of the following types: '' @ join '', '' ts) \<and>
            (is_types req = Absent \<or> is_types req = Falsy \<longrightarrow>
               m = ''The option "'' @ key @ ''" is invalid.'') \<and>
            (\<forall>r. is_types req \<noteq> Truthy (Nested r)))\<close>
  using assms
  by (auto simp: new_RequirementError_def split: option.splits property.splits types.splits if_splits)

text \<open>
  A \<open>RequirementError\<close> that \<open>validateOptions\<close> throws comes from the first key that does not
  validate. Either the transform of that key threw it on the value it was given, or its
  predicate threw it on the transformed value, or the statement
  \<open>throw new RequirementError(key, req)\<close> made it, and then its message is the \<open>msg\<close> of the
  requirement when that is a non-empty string, and otherwise the sentence with the type
  names of the array \<open>is\<close>, or the sentence that the option is invalid when \<open>is\<close> is absent or
  falsy.
\<close>

lemma violated_requirement_message:
  assumes "validateOptions options requirements = Inl (RequirementError m)"
  shows \<open>\<exists>pre key req post result.
     requirements = pre @ (key, req) # post \<and> validateOptions options pre = Inr result \<and>
     ((\<exists>f. map_fn req = Some f \<and>
         f (snd (presence_default (case options of None \<Rightarrow> empty_literal | Some opts \<Rightarrow> opts)
                   key req)) = Throws (RequirementError m)) \<or>
      (\<exists>p v threw. ok_fn req = Some p \<and>
         transform req
           (snd (presence_default (case options of None \<Rightarrow> empty_literal | Some opts \<Rightarrow> opts)
                   key req)) = Inr (v, threw) \<and>
         p v = Throws (RequirementError m)) \<or>
      ((\<forall>c. msg req = Some c \<and> c \<noteq> [] \<longrightarrow> m = c) \<and>
       (msg req = None \<or> msg req = Some [] \<longrightarrow>
          (\<forall>ts. is_types req = Truthy (TypeArray ts) \<longrightarrow>
             m = ''The option "'' @ key @ ''" must be one of the following types: '' @ join '', '' ts) \<and>
          (is_types req = Absent \<or> is_types req = Falsy \<longrightarrow>
             m = ''The option "'' @ key @ ''" is invalid.'') \<and>
          (\<forall>r. is_types req \<noteq> Truthy (Nested r)))))\<close>
proof -
  let ?opts = "case options of None \<Rightarrow> empty_literal | Some opts \<Rightarrow> opts"
  from assms have "validate_loop ?opts requirements Map.empty = Inl (RequirementError m)"
    by (simp add: validateOptions_def)
  from validate_loop_raises [OF this] obtain pre key req post result where
    d: "requirements = pre @ (key, req) # post" and
    p: "validate_loop ?opts pre Map.empty = Inr result" and
    k: "validateKey ?opts key req = Inl (RequirementError m)"
    by blast
  from p have p': "validateOptions options pre = Inr result" by (simp add: validateOptions_def)
  from validateKey_RequirementError [OF k] new_RequirementError_message [of key req m] d p'
  show ?thesis by blast
qed

text \<open>
  Claim C6 says that a custom \<open>msg\<close> is the message verbatim, as the comment above
  \<open>validateOptions\<close> does: "This string will be used as its message. If undefined, a generic
  message is used". The code evaluated at the requirement \<open>{ok: v => v, msg: ''}\<close> and no
  options: the predicate returns \<open>undefined\<close>, the key fails, and the message of the
  \<open>RequirementError\<close> is the generic sentence, not the empty string that \<open>msg\<close> supplied,
  since line 143 tests \<open>!msg\<close>.
\<close>

theorem empty_message_ignored:
  \<open>msg empty_message = Some [] \<and>
   validateOptions None [(''foo'', empty_message)]
     = Inl (RequirementError ''The option "foo" is invalid.'') \<and>
   validateOptions None [(''foo'', empty_message)] \<noteq> Inl (RequirementError [])\<close>
  by (simp add: run_defs empty_message_def)

section \<open>A type name outside the vocabulary\<close>

lemma find_invalid:
  assumes "t \<in> set ts" "t \<notin> set VALID_TYPES"
  shows "\<exists>t'. find (\<lambda>type. type \<notin> set VALID_TYPES) ts = Some t' \<and> t' \<in> set ts \<and> t' \<notin> set VALID_TYPES"
proof (cases "find (\<lambda>type. type \<notin> set VALID_TYPES) ts")
  case None
  with assms show ?thesis by (auto simp: find_None_iff)
next
  case (Some t')
  then show ?thesis by (auto simp: find_Some_iff)
qed

lemma type_check_invalid:
  assumes "is_types req = Truthy (TypeArray ts) \<or>
           (\<exists>r. is_types req = Truthy (Nested r) \<and> is_types r = Truthy (TypeArray ts))"
    and "t \<in> set ts" and "t \<notin> set VALID_TYPES"
  shows \<open>\<exists>t'. t' \<in> set ts \<and> t' \<notin> set VALID_TYPES \<and>
           type_check key req v = Inl (Error (''Internal error: invalid requirement type "'' @ t' @ ''".''))\<close>
proof -
  from find_invalid [OF assms(2,3)] obtain t' where
    f: "find (\<lambda>type. type \<notin> set VALID_TYPES) ts = Some t'" and t': "t' \<in> set ts" "t' \<notin> set VALID_TYPES"
    by blast
  from assms(1) f have
    \<open>type_check key req v = Inl (Error (''Internal error: invalid requirement type "'' @ t' @ ''".''))\<close>
    by (auto simp: type_check_def)
  with t' show ?thesis by blast
qed

text \<open>
  Claim C7 says that a type name outside the vocabulary always gives an error that is no
  \<open>RequirementError\<close>. The transform runs before the type check (lines 72-82), and a
  \<open>RequirementError\<close> that it throws leaves the call first.
\<close>

theorem invalid_type_name_counterexample:
  "is_types rejecting_transform = Truthy (TypeArray [''bogus'']) \<and>
   ''bogus'' \<notin> set VALID_TYPES \<and>
   validateOptions (Some [''foo'' \<mapsto> VString ''x'']) [(''foo'', rejecting_transform)]
     = Inl (RequirementError ''rejected'')"
  by (simp add: run_defs rejecting_transform_def)

text \<open>
  Claim C7 as amended. Let \<open>is\<close> be an array, or a requirement whose own \<open>is\<close> is an array,
  with a name outside the ten of \<open>VALID_TYPES\<close>, and let the transform, if there is one, not
  throw a \<open>RequirementError\<close> on the value it is given. Then, whatever the options are,
  \<open>validateOptions\<close> throws the internal \<open>Error\<close> for such a name when it reaches the key
  (the earlier keys validate), and that is no \<open>RequirementError\<close>.
\<close>

theorem invalid_type_name:
  assumes "is_types req = Truthy (TypeArray ts) \<or>
           (\<exists>r. is_types req = Truthy (Nested r) \<and> is_types r = Truthy (TypeArray ts))"
    and "t \<in> set ts" and "t \<notin> set VALID_TYPES"
    and "\<forall>f m. map_fn req = Some f \<longrightarrow>
           f (snd (presence_default (case options of None \<Rightarrow> empty_literal | Some opts \<Rightarrow> opts) key req))
             \<noteq> Throws (RequirementError m)"
    and "validateOptions options pre = Inr result"
  shows \<open>\<exists>t'. t' \<in> set ts \<and> t' \<notin> set VALID_TYPES \<and>
           validateOptions options (pre @ (key, req) # post)
             = Inl (Error (''Internal error: invalid requirement type "'' @ t' @ ''".'')) \<and>
           (\<forall>m. validateOptions options (pre @ (key, req) # post) \<noteq> Inl (RequirementError m))\<close>
proof -
  let ?opts = "case options of None \<Rightarrow> empty_literal | Some opts \<Rightarrow> opts"
  obtain k v0 where p: "presence_default ?opts key req = (k, v0)"
    by (cases "presence_default ?opts key req")
  have "\<exists>v threw. transform req v0 = Inr (v, threw)"
  proof (cases "map_fn req")
    case None
    then show ?thesis by (auto simp: transform_def)
  next
    case (Some f)
    with assms(4) p have "\<And>m. f v0 \<noteq> Throws (RequirementError m)" by simp
    with Some show ?thesis
      by (cases "f v0") (auto simp: transform_def split: exn.splits)
  qed
  then obtain v threw where tr: "transform req v0 = Inr (v, threw)" by blast
  from type_check_invalid [OF assms(1-3), of key v] obtain t' where
    t': "t' \<in> set ts" "t' \<notin> set VALID_TYPES" and
    tc: \<open>type_check key req v = Inl (Error (''Internal error: invalid requirement type "'' @ t' @ ''".''))\<close>
    by blast
  have \<open>validateKey ?opts key req = Inl (Error (''Internal error: invalid requirement type "'' @ t' @ ''".''))\<close>
    by (simp add: validateKey_def p tr tc)
  with assms(5) have
    \<open>validateOptions options (pre @ (key, req) # post)
       = Inl (Error (''Internal error: invalid requirement type "'' @ t' @ ''".''))\<close>
    by (simp add: validateOptions_def validate_loop_append)
  with t' show ?thesis by auto
qed

theorem invalid_type_name_witness:
  \<open>validateOptions (Some [''foo'' \<mapsto> VString ''x''])
      ([] @ (''foo'', is_object [''string'', ''bogus'']) # [])
     = Inl (Error ''Internal error: invalid requirement type "bogus".'') \<and>
   getTypeOf (VString ''x'') = ''string''\<close>
proof -
  let ?options = "Some [''foo'' \<mapsto> VString ''x'']"
  let ?req = "is_object [''string'', ''bogus'']"
  have i: "is_types ?req = Truthy (TypeArray [''string'', ''bogus'']) \<or>
           (\<exists>r. is_types ?req = Truthy (Nested r) \<and> is_types r = Truthy (TypeArray [''string'', ''bogus'']))"
    by (simp add: is_object_def)
  have t: "''bogus'' \<in> set [''string'', ''bogus'']" by simp
  have n: "''bogus'' \<notin> set VALID_TYPES" by (simp add: VALID_TYPES_def)
  have m: "\<forall>f m. map_fn ?req = Some f \<longrightarrow>
             f (snd (presence_default (case ?options of None \<Rightarrow> empty_literal | Some opts \<Rightarrow> opts) ''foo'' ?req))
               \<noteq> Throws (RequirementError m)"
    by (simp add: is_object_def)
  have pre: "validateOptions ?options [] = Inr Map.empty" by (simp add: validateOptions_def)
  from invalid_type_name [OF i t n m pre, where post = "[]"] obtain t' where
    t': "t' \<in> set [''string'', ''bogus'']" "t' \<notin> set VALID_TYPES" and
    r: \<open>validateOptions ?options ([] @ (''foo'', ?req) # [])
          = Inl (Error (''Internal error: invalid requirement type "'' @ t' @ ''".''))\<close>
    by blast
  from t' have "t' = ''bogus''" by (auto simp: VALID_TYPES_def)
  with r show ?thesis by (simp add: getTypeOf_def)
qed

section \<open>The predicate\<close>

lemma type_check_isOptional:
  assumes "type_check key req v = Inr isOptional"
  shows "isOptional =
          (\<exists>ts. (is_types req = Truthy (TypeArray ts) \<or>
                 (\<exists>r. is_types req = Truthy (Nested r) \<and> is_types r = Truthy (TypeArray ts))) \<and>
                ''undefined'' \<in> set ts \<and> ''null'' \<in> set ts)"
  using assms
  by (auto simp: type_check_def Let_def split: property.splits types.splits option.splits if_splits)

text \<open>
  Claim C8 says that the predicate is invoked whenever the accepted types do not hold both
  \<open>undefined\<close> and \<open>null\<close>. The type check runs first (lines 84-105); when it fails, the
  predicate is never invoked. Here the predicate would throw if it were.
\<close>

theorem predicate_after_type_check_counterexample:
  \<open>ok_fn object_with_predicate = Some (\<lambda>v. Throws (Thrown (VString ''invoked''))) \<and>
   is_types object_with_predicate = Truthy (TypeArray [''object'']) \<and>
   ''undefined'' \<notin> set [''object''] \<and>
   validateOptions None [(''foo'', object_with_predicate)]
     = Inl (RequirementError ''The option "foo" must be one of the following types: object'') \<and>
   validateOptions None [(''foo'', object_with_predicate)] \<noteq> Inl (Thrown (VString ''invoked''))\<close>
  by (simp add: run_defs object_with_predicate_def)

text \<open>
  Claim C8 as amended. Let the requirement declare the predicate \<open>p\<close>, and let its \<open>is\<close> be
  absent or falsy (no accepted types, \<open>types = None\<close>), or an array, or a requirement
  whose own \<open>is\<close> is an array (the accepted types, \<open>types = Some ts\<close>). When the transform
  throws a \<open>RequirementError\<close>, or when the type check throws, for a type name outside the
  vocabulary or a value whose classified type is not accepted, the key fails as it does
  without the predicate, whatever \<open>p\<close> is: \<open>p\<close> is not invoked. Otherwise, with \<open>v\<close> the value
  after the default and the transform: if the accepted types hold both \<open>undefined\<close> and
  \<open>null\<close> and \<open>v\<close> is \<open>null\<close> or \<open>undefined\<close>, the key validates as it does without the
  predicate, and \<open>p\<close> is not invoked; in every other case \<open>p\<close> is invoked with \<open>v\<close>: what it
  throws is thrown, and when it returns a truthy value the key validates as without the
  predicate. Where \<open>is\<close> is no requirement, a return that is not truthy throws a
  \<open>RequirementError\<close>.
\<close>

theorem predicate_invocation:
  assumes "ok_fn req = Some p"
    and "types = None \<and> (is_types req = Absent \<or> is_types req = Falsy) \<or>
         (\<exists>ts. types = Some ts \<and>
            (is_types req = Truthy (TypeArray ts) \<or>
             (\<exists>r. is_types req = Truthy (Nested r) \<and> is_types r = Truthy (TypeArray ts))))"
  shows "(\<forall>e. transform req (snd (presence_default options key req)) = Inl e \<longrightarrow>
            validateKey options key req = Inl e \<and>
            validateKey options key
              (Requirement (dflt req) (map_fn req) (is_types req) None (msg req)) = Inl e) \<and>
         (\<forall>v threw. transform req (snd (presence_default options key req)) = Inr (v, threw) \<longrightarrow>
            ((\<exists>ts. types = Some ts \<and> (\<not> set ts \<subseteq> set VALID_TYPES \<or> getTypeOf v \<notin> set ts)) \<longrightarrow>
               (\<exists>e. validateKey options key req = Inl e \<and>
                  validateKey options key
                    (Requirement (dflt req) (map_fn req) (is_types req) None (msg req)) = Inl e)) \<and>
            (\<not> (\<exists>ts. types = Some ts \<and> (\<not> set ts \<subseteq> set VALID_TYPES \<or> getTypeOf v \<notin> set ts)) \<longrightarrow>
               ((\<exists>ts. types = Some ts \<and> ''undefined'' \<in> set ts \<and> ''null'' \<in> set ts) \<and>
                (v = VNull \<or> v = VUndefined) \<longrightarrow>
                  validateKey options key req =
                  validateKey options key
                    (Requirement (dflt req) (map_fn req) (is_types req) None (msg req))) \<and>
               (\<not> ((\<exists>ts. types = Some ts \<and> ''undefined'' \<in> set ts \<and> ''null'' \<in> set ts) \<and>
                    (v = VNull \<or> v = VUndefined)) \<longrightarrow>
                  (\<forall>e. p v = Throws e \<longrightarrow> validateKey options key req = Inl e) \<and>
                  (\<forall>b. p v = Returns b \<and> truthy b \<longrightarrow>
                     validateKey options key req =
                     validateKey options key
                       (Requirement (dflt req) (map_fn req) (is_types req) None (msg req))) \<and>
                  (\<forall>b. p v = Returns b \<and> \<not> truthy b \<and> (\<forall>r. is_types req \<noteq> Truthy (Nested r)) \<longrightarrow>
                     (\<exists>m. validateKey options key req = Inl (RequirementError m))))))"
proof -
  let ?req' = "Requirement (dflt req) (map_fn req) (is_types req) None (msg req)"
  let ?v0 = "snd (presence_default options key req)"
  obtain k v0 where pd: "presence_default options key req = (k, v0)"
    by (cases "presence_default options key req")
  have pd': "presence_default options key ?req' = (k, v0)"
    using pd by (simp add: presence_default_def)
  have tr': "\<And>x. transform ?req' x = transform req x" by (simp add: transform_def)
  have tc': "\<And>x. type_check key ?req' x = type_check key req x"
    by (rule type_check_cong) simp_all
  have pc': "\<And>b x. predicate_check key ?req' b x = Inr ()" by (simp add: predicate_check_def)
  have first: "validateKey options key req = Inl e \<and> validateKey options key ?req' = Inl e"
    if "transform req ?v0 = Inl e" for e
    using that pd by (simp add: validateKey_def pd' tr')
  have second: "\<exists>e. validateKey options key req = Inl e \<and> validateKey options key ?req' = Inl e"
    if t: "transform req ?v0 = Inr (v, threw)"
      and r: "\<exists>ts. types = Some ts \<and> (\<not> set ts \<subseteq> set VALID_TYPES \<or> getTypeOf v \<notin> set ts)"
    for v threw
  proof -
    from r obtain ts where ts: "types = Some ts"
      and bad: "\<not> set ts \<subseteq> set VALID_TYPES \<or> getTypeOf v \<notin> set ts" by blast
    from assms(2) ts have i: "is_types req = Truthy (TypeArray ts) \<or>
             (\<exists>r. is_types req = Truthy (Nested r) \<and> is_types r = Truthy (TypeArray ts))"
      by auto
    have "\<exists>e. type_check key req v = Inl e"
    proof (cases "set ts \<subseteq> set VALID_TYPES")
      case True
      with bad have "getTypeOf v \<notin> set ts" by simp
      with type_check_resolved [OF i True, of key v] show ?thesis by simp
    next
      case False
      then obtain t where "t \<in> set ts" "t \<notin> set VALID_TYPES" by blast
      from type_check_invalid [OF i this, of key v] show ?thesis by blast
    qed
    then obtain e where e: "type_check key req v = Inl e" ..
    from t pd have t0: "transform req v0 = Inr (v, threw)" by simp
    have "validateKey options key req = Inl e"
      by (simp add: validateKey_def pd t0 e)
    moreover have "validateKey options key ?req' = Inl e"
      by (simp add: validateKey_def pd' tr' t0 tc' e)
    ultimately show ?thesis by blast
  qed
  have third:
    "((\<exists>ts. types = Some ts \<and> ''undefined'' \<in> set ts \<and> ''null'' \<in> set ts) \<and>
      (v = VNull \<or> v = VUndefined) \<longrightarrow>
        validateKey options key req = validateKey options key ?req') \<and>
     (\<not> ((\<exists>ts. types = Some ts \<and> ''undefined'' \<in> set ts \<and> ''null'' \<in> set ts) \<and>
          (v = VNull \<or> v = VUndefined)) \<longrightarrow>
        (\<forall>e. p v = Throws e \<longrightarrow> validateKey options key req = Inl e) \<and>
        (\<forall>b. p v = Returns b \<and> truthy b \<longrightarrow>
           validateKey options key req = validateKey options key ?req') \<and>
        (\<forall>b. p v = Returns b \<and> \<not> truthy b \<and> (\<forall>r. is_types req \<noteq> Truthy (Nested r)) \<longrightarrow>
           (\<exists>m. validateKey options key req = Inl (RequirementError m))))"
    if t: "transform req ?v0 = Inr (v, threw)"
      and r: "\<not> (\<exists>ts. types = Some ts \<and> (\<not> set ts \<subseteq> set VALID_TYPES \<or> getTypeOf v \<notin> set ts))"
    for v threw
  proof -
    let ?exempt = "(\<exists>ts. types = Some ts \<and> ''undefined'' \<in> set ts \<and> ''null'' \<in> set ts)"
    from t pd have t0: "transform req v0 = Inr (v, threw)" by simp
    have tc: "type_check key req v = Inr ?exempt"
    proof (cases types)
      case None
      with assms(2) have "is_types req = Absent \<or> is_types req = Falsy" by auto
      then have "type_check key req v = Inr False" by (auto simp: type_check_def)
      with None show ?thesis by simp
    next
      case (Some ts)
      with assms(2) have i: "is_types req = Truthy (TypeArray ts) \<or>
             (\<exists>r. is_types req = Truthy (Nested r) \<and> is_types r = Truthy (TypeArray ts))"
        by auto
      from r Some have v: "set ts \<subseteq> set VALID_TYPES" and g: "getTypeOf v \<in> set ts" by auto
      from type_check_resolved [OF i v, of key v] g Some show ?thesis by simp
    qed
    have without: "validateKey options key ?req' =
        (if k \<or> (map_fn req \<noteq> None \<and> \<not> threw \<and> v \<noteq> VUndefined) then Inr (Some v) else Inr None)"
      by (simp add: validateKey_def pd' tr' t0 tc' tc pc')
    have "with": "validateKey options key req =
        (case predicate_check key req ?exempt v of
           Inl err \<Rightarrow> Inl err
         | Inr u \<Rightarrow> if k \<or> (map_fn req \<noteq> None \<and> \<not> threw \<and> v \<noteq> VUndefined) then Inr (Some v) else Inr None)"
      by (simp add: validateKey_def pd t0 tc)
    have a: "?exempt \<and> (v = VNull \<or> v = VUndefined) \<longrightarrow>
               validateKey options key req = validateKey options key ?req'"
      using assms(1) by (auto simp: "with" without predicate_check_def)
    have pc: "predicate_check key req ?exempt v =
               (case p v of
                  Throws err \<Rightarrow> Inl err
                | Returns b \<Rightarrow> if \<not> truthy b then Inl (new_RequirementError key req) else Inr ())"
      if "\<not> (?exempt \<and> (v = VNull \<or> v = VUndefined))"
      using assms(1) that by (auto simp: predicate_check_def)
    have b1: "validateKey options key req = Inl e"
      if "\<not> (?exempt \<and> (v = VNull \<or> v = VUndefined))" "p v = Throws e" for e
      using that by (simp add: "with" pc)
    have b2: "validateKey options key req = validateKey options key ?req'"
      if "\<not> (?exempt \<and> (v = VNull \<or> v = VUndefined))" "p v = Returns b" "truthy b" for b
      using that by (simp add: "with" pc without)
    have b3: "\<exists>m. validateKey options key req = Inl (RequirementError m)"
      if n: "\<not> (?exempt \<and> (v = VNull \<or> v = VUndefined))" and ret: "p v = Returns b"
        and f: "\<not> truthy b" and i: "\<forall>r. is_types req \<noteq> Truthy (Nested r)" for b
    proof -
      from i have "\<exists>m. new_RequirementError key req = RequirementError m"
        by (auto simp: new_RequirementError_def split: option.splits property.splits types.splits)
      then obtain m where "new_RequirementError key req = RequirementError m" ..
      with n ret f have "validateKey options key req = Inl (RequirementError m)"
        by (simp add: "with" pc)
      then show ?thesis ..
    qed
    have b: "\<not> (?exempt \<and> (v = VNull \<or> v = VUndefined)) \<longrightarrow>
        (\<forall>e. p v = Throws e \<longrightarrow> validateKey options key req = Inl e) \<and>
        (\<forall>b. p v = Returns b \<and> truthy b \<longrightarrow>
           validateKey options key req = validateKey options key ?req') \<and>
        (\<forall>b. p v = Returns b \<and> \<not> truthy b \<and> (\<forall>r. is_types req \<noteq> Truthy (Nested r)) \<longrightarrow>
           (\<exists>m. validateKey options key req = Inl (RequirementError m)))"
    proof (intro impI conjI allI)
      fix e
      assume "\<not> (?exempt \<and> (v = VNull \<or> v = VUndefined))" "p v = Throws e"
      then show "validateKey options key req = Inl e" by (rule b1)
    next
      fix b
      assume "\<not> (?exempt \<and> (v = VNull \<or> v = VUndefined))" "p v = Returns b \<and> truthy b"
      then show "validateKey options key req = validateKey options key ?req'"
        using b2 [of b] by simp
    next
      fix b
      assume "\<not> (?exempt \<and> (v = VNull \<or> v = VUndefined))"
        "p v = Returns b \<and> \<not> truthy b \<and> (\<forall>r. is_types req \<noteq> Truthy (Nested r))"
      then show "\<exists>m. validateKey options key req = Inl (RequirementError m)"
        using b3 [of b] by simp
    qed
    from a b show ?thesis by (rule conjI)
  qed
  show ?thesis
    apply (rule conjI)
     apply (intro allI impI)
     apply (rule first, assumption)
    apply (intro allI impI)
    apply (rule conjI)
     apply (rule impI)
     apply (rule second, assumption, assumption)
    apply (rule impI)
    apply (rule third, assumption, assumption)
    done
qed

theorem predicate_invocation_witness:
  \<open>validateKey Map.empty ''foo'' optional_with_predicate = Inr None \<and>
   validateKey [''foo'' \<mapsto> VString ''x''] ''foo'' optional_with_predicate
     = Inl (Thrown (VString ''invoked'')) \<and>
   (\<exists>e. validateKey [''foo'' \<mapsto> VNumber 5] ''foo'' optional_with_predicate = Inl e \<and>
        validateKey [''foo'' \<mapsto> VNumber 5] ''foo''
          (Requirement None None (Truthy (TypeArray [''string'', ''undefined'', ''null''])) None None)
          = Inl e)\<close>
proof -
  let ?req = optional_with_predicate
  let ?p = "\<lambda>v. Throws (Thrown (VString ''invoked''))"
  let ?ts = "[''string'', ''undefined'', ''null'']"
  have okf: "ok_fn ?req = Some ?p" by (simp add: optional_with_predicate_def)
  have sc: "Some ?ts = None \<and> (is_types ?req = Absent \<or> is_types ?req = Falsy) \<or>
         (\<exists>ts. Some ?ts = Some ts \<and>
            (is_types ?req = Truthy (TypeArray ts) \<or>
             (\<exists>r. is_types ?req = Truthy (Nested r) \<and> is_types r = Truthy (TypeArray ts))))"
    by (simp add: optional_with_predicate_def)
  have noOk: "Requirement (dflt ?req) (map_fn ?req) (is_types ?req) None (msg ?req)
      = Requirement None None (Truthy (TypeArray ?ts)) None None"
    by (simp add: optional_with_predicate_def)
  have valid: "set ?ts \<subseteq> set VALID_TYPES" by (simp add: VALID_TYPES_def)
  have tr1: "transform ?req (snd (presence_default Map.empty ''foo'' ?req)) = Inr (VUndefined, False)"
    by (simp add: run_defs optional_with_predicate_def)
  have g1: "getTypeOf VUndefined \<in> set ?ts" by (simp add: getTypeOf_def)
  have "validateKey Map.empty ''foo'' ?req =
        validateKey Map.empty ''foo''
          (Requirement (dflt ?req) (map_fn ?req) (is_types ?req) None (msg ?req))"
    using predicate_invocation [OF okf sc, where options = Map.empty and key = "''foo''",
            THEN conjunct2, rule_format, OF tr1, THEN conjunct2] valid g1
    by simp
  also have "\<dots> = Inr None" by (simp add: run_defs optional_with_predicate_def)
  finally have first: "validateKey Map.empty ''foo'' ?req = Inr None" .
  have tr2: "transform ?req (snd (presence_default [''foo'' \<mapsto> VString ''x''] ''foo'' ?req))
               = Inr (VString ''x'', False)"
    by (simp add: run_defs optional_with_predicate_def)
  have g2: "getTypeOf (VString ''x'') \<in> set ?ts" by (simp add: getTypeOf_def)
  have second: "validateKey [''foo'' \<mapsto> VString ''x''] ''foo'' ?req = Inl (Thrown (VString ''invoked''))"
    using predicate_invocation [OF okf sc, where options = "[''foo'' \<mapsto> VString ''x'']"
            and key = "''foo''", THEN conjunct2, rule_format, OF tr2, THEN conjunct2] valid g2
    by simp
  have tr3: "transform ?req (snd (presence_default [''foo'' \<mapsto> VNumber 5] ''foo'' ?req))
               = Inr (VNumber 5, False)"
    by (simp add: run_defs optional_with_predicate_def)
  have g3: "getTypeOf (VNumber 5) \<notin> set ?ts" by (simp add: getTypeOf_def)
  have third: "\<exists>e. validateKey [''foo'' \<mapsto> VNumber 5] ''foo'' ?req = Inl e \<and>
        validateKey [''foo'' \<mapsto> VNumber 5] ''foo''
          (Requirement (dflt ?req) (map_fn ?req) (is_types ?req) None (msg ?req)) = Inl e"
    using predicate_invocation [OF okf sc, where options = "[''foo'' \<mapsto> VNumber 5]"
            and key = "''foo''", THEN conjunct2, rule_format, OF tr3, THEN conjunct1] g3
    by simp
  from first second third show ?thesis unfolding noOk by blast
qed

section \<open>The combinators leave their arguments alone\<close>

text \<open>
  What each operation on the store changes: an allocation appends, and an assignment to a
  cell beyond a prefix of the store keeps that prefix.
\<close>

lemma prefix_alloc: "alloc c h = (a, h') \<Longrightarrow> a = length h \<and> h' = h @ [c]"
  by (auto simp: alloc_def)

lemma prefix_update:
  assumes "prefix h0 h" and "length h0 \<le> a"
  shows "prefix h0 (h[a := c])"
proof -
  from assms(1) obtain zs where "h = h0 @ zs" by (auto simp: prefix_def)
  with assms(2) have "h[a := c] = h0 @ zs[a - length h0 := c]"
    by (simp add: list_update_append)
  then show ?thesis by simp
qed

lemma prefix_snoc: "prefix h0 h \<Longrightarrow> prefix h0 (h @ [c])"
  by (simp add: prefix_def) auto

lemma cell_at_snoc: "cell_at (h @ [c]) (length h) = Some c"
  by (simp add: cell_at_def)

lemma cell_at_snoc_old: "a < length h \<Longrightarrow> cell_at (h @ [c]) a = cell_at h a"
  by (simp add: cell_at_def nth_append)

lemma cell_at_update: "a < length h \<Longrightarrow> cell_at (h[a := c]) a = Some c"
  by (simp add: cell_at_def)

lemma cell_at_update_other: "a \<noteq> b \<Longrightarrow> cell_at (h[b := c]) a = cell_at h a"
  by (simp add: cell_at_def)

lemma array_filter_result:
  assumes "array_filter h v = (r, h')"
  shows "(\<exists>err. r = Inl err \<and> h' = h) \<or>
         (\<exists>xs. r = Inr (SRef (length h)) \<and> h' = h @ [ArrayCell xs])"
  using assms
  by (auto simp: array_filter_def alloc_def split: option.splits)

lemma array_concat_result:
  assumes "array_concat h this items = (r, h')"
  shows "(\<exists>err. r = Inl err \<and> h' = h) \<or>
         (\<exists>xs. r = Inr (SRef (length h)) \<and> h' = h @ [ArrayCell xs])"
  using assms
  by (auto simp: array_concat_def alloc_def Let_def split: sval.splits)

lemma map_of_define_property: "map_of (define_property name v ps) = (map_of ps)(name \<mapsto> v)"
  by (induction ps) (auto simp: fun_eq_iff)

lemma map_of_fold_define:
  "map_of (fold (\<lambda>(name, v) ps. define_property name v ps) d ps) = map_of ps ++ map_of (rev d)"
proof (induction d arbitrary: ps)
  case Nil
  then show ?case by simp
next
  case (Cons p d)
  obtain n v where p: "p = (n, v)" by (cases p)
  show ?case
    by (simp add: p Cons.IH map_of_define_property fun_eq_iff map_add_def split: option.splits)
qed

lemma merge_st_result:
  assumes "merge_st h source properties = (r, h')"
  shows "(\<exists>err. r = Inl err \<and> h' = h) \<or>
         (\<exists>a ps ps'. source = SRef a \<and> r = Inr (SRef a) \<and> cell_at h a = Some (ObjectCell ps) \<and>
             h' = h[a := ObjectCell ps'])"
  using assms
  by (auto simp: merge_st_def Let_def split: sval.splits option.splits cell.splits)

lemma keys_define_property:
  "fst ` set (define_property name v ps) = insert name (fst ` set ps)"
proof (induction ps)
  case Nil
  then show ?case by simp
next
  case (Cons p ps)
  obtain n w where p: "p = (n, w)" by (cases p)
  show ?case
  proof (cases "n = name")
    case True
    then show ?thesis by (simp add: p)
  next
    case False
    then show ?thesis by (simp add: p Cons.IH insert_commute)
  qed
qed

lemma distinct_define_property:
  "distinct (map fst ps) \<Longrightarrow> distinct (map fst (define_property name v ps))"
proof (induction ps)
  case Nil
  then show ?case by simp
next
  case (Cons p ps)
  obtain n w where p: "p = (n, w)" by (cases p)
  show ?case
  proof (cases "n = name")
    case True
    with Cons.prems p show ?thesis by simp
  next
    case False
    have "n \<notin> fst ` set (define_property name v ps)"
      using Cons.prems p False by (simp add: keys_define_property)
    with Cons p False show ?thesis by simp
  qed
qed

lemma distinct_fold_define:
  "distinct (map fst d) \<Longrightarrow>
   distinct (map fst (fold (\<lambda>(name, v) d. define_property name v d) xs d))"
  by (induction xs arbitrary: d) (auto simp: distinct_define_property)

lemma distinct_descriptor:
  "distinct (map fst d) \<Longrightarrow>
   distinct (map fst (fold (\<lambda>props d. fold (\<lambda>(name, v) d. define_property name v d)
                                  (own_properties h props) d) bags d))"
  by (induction bags arbitrary: d) (auto simp: distinct_fold_define)

lemma map_of_rev_distinct:
  assumes "distinct (map fst xs)"
  shows "map_of (rev xs) = map_of xs"
proof -
  have "distinct (map fst (rev xs))" using assms by (simp add: rev_map [symmetric])
  moreover have "set (rev xs) = set xs" by simp
  ultimately show ?thesis using assms by (simp add: map_of_inject_set)
qed

lemma merge_st_last:
  assumes "cell_at h a = Some (ObjectCell ps)"
    and "own_properties h lit = [(k, v)]" and "truthy_st lit"
  shows "\<exists>ps'. merge_st h (SRef a) (props @ [lit]) = (Inr (SRef a), h[a := ObjectCell ps']) \<and>
               map_of ps' k = Some v"
proof -
  let ?inner = "\<lambda>(name, v) d. define_property name v d"
  let ?outer = "\<lambda>props d. fold ?inner (own_properties h props) d"
  let ?d1 = "fold ?outer (filter truthy_st props) []"
  let ?d = "fold ?outer (filter truthy_st (props @ [lit])) []"
  have d: "?d = define_property k v ?d1" using assms(2,3) by simp
  have "distinct (map fst ?d1)" by (rule distinct_descriptor) simp
  then have dist: "distinct (map fst ?d)" unfolding d by (rule distinct_define_property)
  have look: "map_of ?d k = Some v" unfolding d by (simp add: map_of_define_property)
  have "map_of (fold ?inner ?d ps) k = Some v"
    unfolding map_of_fold_define map_of_rev_distinct [OF dist]
    by (rule map_add_find_right [of "map_of ?d" k v "map_of ps", OF look])
  moreover have "merge_st h (SRef a) (props @ [lit]) = (Inr (SRef a), h[a := ObjectCell (fold ?inner ?d ps)])"
    using assms(1) by (simp add: merge_st_def Let_def)
  ultimately show ?thesis by blast
qed

lemma filtered_types_result:
  assumes "filtered_types h found = (r, h')"
  shows "(\<exists>err. r = Inl err \<and> h' = h) \<or>
         (\<exists>xs. r = Inr (SRef (length h)) \<and> h' = h @ [ArrayCell xs])"
proof (cases "truthy_st found")
  case True
  with assms show ?thesis using array_filter_result [of h found r h'] by (simp add: filtered_types_def)
next
  case False
  with assms show ?thesis by (auto simp: filtered_types_def alloc_def)
qed

lemma required_st_frame:
  assumes "required_st h req = Some (r, h')"
  shows "prefix h h' \<and>
         (\<forall>v. r = Inr v \<longrightarrow>
            (\<exists>obj ps t xs. v = SRef obj \<and> length h \<le> obj \<and> cell_at h' obj = Some (ObjectCell ps) \<and>
               map_of ps ''is'' = Some (SRef t) \<and> length h \<le> t \<and> cell_at h' t = Some (ArrayCell xs)))"
proof (cases "findTypes_st h req")
  case None
  with assms show ?thesis by (simp add: required_st_def)
next
  case (Some f)
  show ?thesis
  proof (cases f)
    case (Inl err)
    with Some assms have "r = Inl err" "h' = h" by (simp_all add: required_st_def)
    then show ?thesis by simp
  next
    case (Inr found)
    obtain r1 h1 where step: "filtered_types h found = (r1, h1)" by (cases "filtered_types h found")
    from filtered_types_result [OF step] show ?thesis
    proof
      assume "\<exists>err. r1 = Inl err \<and> h1 = h"
      then obtain err where "r1 = Inl err" "h1 = h" by blast
      with assms Some Inr step have "r = Inl err" "h' = h" by (simp_all add: required_st_def)
      then show ?thesis by simp
    next
      assume "\<exists>xs. r1 = Inr (SRef (length h)) \<and> h1 = h @ [ArrayCell xs]"
      then obtain xs where r1: "r1 = Inr (SRef (length h))" and h1: "h1 = h @ [ArrayCell xs]" by blast
      let ?t = "length h"
      let ?h3 = "(h @ [ArrayCell xs]) @ [ObjectCell []] @ [ObjectCell [(''is'', SRef ?t)]]"
      have "required_st h req = Some (merge_st ?h3 (SRef (Suc ?t)) ([req] @ [SRef (Suc (Suc ?t))]))"
        using step r1 h1 by (simp add: required_st_def Some Inr alloc_def)
      with assms have res: "merge_st ?h3 (SRef (Suc ?t)) ([req] @ [SRef (Suc (Suc ?t))]) = (r, h')"
        by simp
      have c: "cell_at ?h3 (Suc ?t) = Some (ObjectCell [])"
        by (simp add: cell_at_def nth_append)
      have o: "own_properties ?h3 (SRef (Suc (Suc ?t))) = [(''is'', SRef ?t)]"
        by (simp add: own_properties_def cell_at_def nth_append)
      have tr: "truthy_st (SRef (Suc (Suc ?t)))" by simp
      from merge_st_last [OF c o tr, of "[req]"] obtain ps' where
        m: "merge_st ?h3 (SRef (Suc ?t)) ([req] @ [SRef (Suc (Suc ?t))])
              = (Inr (SRef (Suc ?t)), ?h3[Suc ?t := ObjectCell ps'])" and
        look: "map_of ps' ''is'' = Some (SRef ?t)"
        by blast
      from m res have r: "r = Inr (SRef (Suc ?t))" and h': "h' = ?h3[Suc ?t := ObjectCell ps']"
        by simp_all
      have p: "prefix h h'" unfolding h' by (rule prefix_update) simp_all
      have co: "cell_at h' (Suc ?t) = Some (ObjectCell ps')"
        unfolding h' by (simp add: cell_at_def)
      have ct: "cell_at h' ?t = Some (ArrayCell xs)"
        unfolding h' by (simp add: cell_at_def nth_append)
      have "\<exists>obj ps t xs. SRef (Suc ?t) = SRef obj \<and> length h \<le> obj \<and>
               cell_at h' obj = Some (ObjectCell ps) \<and>
               map_of ps ''is'' = Some (SRef t) \<and> length h \<le> t \<and> cell_at h' t = Some (ArrayCell xs)"
        using co look ct by (intro exI [of _ "Suc ?t"] exI [of _ ps'] exI [of _ ?t] exI [of _ xs]) simp
      with p r show ?thesis by simp
    qed
  qed
qed

lemma set_is_st_object:
  "cell_at h a = Some (ObjectCell ps) \<Longrightarrow>
   set_is_st h (SRef a) v = (Inr (), h[a := ObjectCell (define_property ''is'' v ps)])"
  by (simp add: set_is_st_def)

lemma merge_st_object:
  "cell_at h a = Some (ObjectCell ps) \<Longrightarrow>
   \<exists>ps'. merge_st h (SRef a) props = (Inr (SRef a), h[a := ObjectCell ps'])"
  by (auto simp: merge_st_def Let_def)

lemma optional_st_frame:
  assumes "optional_st h req0 = Some (r, h')"
  shows "prefix h h' \<and>
         (\<forall>v. r = Inr v \<longrightarrow>
            (\<exists>obj ps t xs. v = SRef obj \<and> length h \<le> obj \<and> cell_at h' obj = Some (ObjectCell ps) \<and>
               map_of ps ''is'' = Some (SRef t) \<and> length h \<le> t \<and> cell_at h' t = Some (ArrayCell xs)))"
proof -
  let ?n = "length h"
  let ?h2 = "h @ [ArrayCell [], ObjectCell [(''is'', SRef ?n)]]"
  obtain rm h3 where m: "merge_st ?h2 (SRef (Suc ?n)) [req0] = (rm, h3)"
    by (cases "merge_st ?h2 (SRef (Suc ?n)) [req0]")
  have unfold: "optional_st h req0 =
      (case (rm, h3) of
         (Inl err, h3) \<Rightarrow> Some (Inl err, h3)
       | (Inr req, h3) \<Rightarrow>
           (case findTypes_st h3 req of
              None \<Rightarrow> None
            | Some (Inl err) \<Rightarrow> Some (Inl err, h3)
            | Some (Inr found) \<Rightarrow>
                (case array_filter h3 found of
                   (Inl err, h4) \<Rightarrow> Some (Inl err, h4)
                 | (Inr filtered, h4) \<Rightarrow>
                     (case array_concat h4 filtered [SString ''undefined'', SString ''null''] of
                        (Inl err, h5) \<Rightarrow> Some (Inl err, h5)
                      | (Inr types, h5) \<Rightarrow>
                          (case set_is_st h5 req types of
                             (Inl err, h6) \<Rightarrow> Some (Inl err, h6)
                           | (Inr u, h6) \<Rightarrow> Some (Inr req, h6))))))"
    by (simp add: optional_st_def alloc_def m)
  have c2: "cell_at ?h2 (Suc ?n) = Some (ObjectCell [(''is'', SRef ?n)])"
    by (simp add: cell_at_def nth_append)
  from merge_st_object [OF c2, of "[req0]"] m obtain ps' where
    rm: "rm = Inr (SRef (Suc ?n))" and h3: "h3 = ?h2[Suc ?n := ObjectCell ps']"
    by auto
  have p3: "prefix h h3" unfolding h3 by (rule prefix_update) simp_all
  have l3: "length h3 = Suc (Suc ?n)" unfolding h3 by simp
  have c3: "cell_at h3 (Suc ?n) = Some (ObjectCell ps')" unfolding h3 by (simp add: cell_at_def)
  show ?thesis
  proof (cases "findTypes_st h3 (SRef (Suc ?n))")
    case None
    with assms unfold rm show ?thesis by simp
  next
    case (Some f)
    show ?thesis
    proof (cases f)
      case (Inl err)
      with assms unfold rm Some have "r = Inl err" "h' = h3" by simp_all
      with p3 show ?thesis by simp
    next
      case (Inr found)
      obtain rf h4 where f: "array_filter h3 found = (rf, h4)" by (cases "array_filter h3 found")
      from array_filter_result [OF f] show ?thesis
      proof
        assume "\<exists>err. rf = Inl err \<and> h4 = h3"
        then obtain err where "rf = Inl err" "h4 = h3" by blast
        with assms unfold rm Some Inr f have "r = Inl err" "h' = h3" by simp_all
        with p3 show ?thesis by simp
      next
        assume "\<exists>xs. rf = Inr (SRef (length h3)) \<and> h4 = h3 @ [ArrayCell xs]"
        then obtain xs where rf: "rf = Inr (SRef (length h3))" and h4: "h4 = h3 @ [ArrayCell xs]"
          by blast
        have p4: "prefix h h4" unfolding h4 using p3 by (rule prefix_snoc)
        obtain rc h5 where c: "array_concat h4 (SRef (length h3)) [SString ''undefined'', SString ''null''] = (rc, h5)"
          by (cases "array_concat h4 (SRef (length h3)) [SString ''undefined'', SString ''null'']")
        from array_concat_result [OF c] show ?thesis
        proof
          assume "\<exists>err. rc = Inl err \<and> h5 = h4"
          then obtain err where "rc = Inl err" "h5 = h4" by blast
          with assms unfold rm Some Inr f rf c have "r = Inl err" "h' = h4" by simp_all
          with p4 show ?thesis by simp
        next
          assume "\<exists>ys. rc = Inr (SRef (length h4)) \<and> h5 = h4 @ [ArrayCell ys]"
          then obtain ys where rc: "rc = Inr (SRef (length h4))" and h5: "h5 = h4 @ [ArrayCell ys]"
            by blast
          have l4: "length h4 = Suc (Suc (Suc ?n))" unfolding h4 using l3 by simp
          have c5: "cell_at h5 (Suc ?n) = Some (ObjectCell ps')"
            unfolding h5 h4 using c3 l3 by (simp add: cell_at_def nth_append)
          have s: "set_is_st h5 (SRef (Suc ?n)) (SRef (length h4))
                     = (Inr (), h5[Suc ?n := ObjectCell (define_property ''is'' (SRef (length h4)) ps')])"
            by (rule set_is_st_object [OF c5])
          from assms unfold rm Some Inr f rf c rc s
          have r: "r = Inr (SRef (Suc ?n))" and
            h': "h' = h5[Suc ?n := ObjectCell (define_property ''is'' (SRef (length h4)) ps')]"
            by simp_all
          have p5: "prefix h h5" unfolding h5 using p4 by (rule prefix_snoc)
          have p: "prefix h h'" unfolding h' using p5 by (rule prefix_update) simp
          have l5: "length h5 = Suc (Suc (Suc (Suc ?n)))" unfolding h5 using l4 by simp
          have co: "cell_at h' (Suc ?n) = Some (ObjectCell (define_property ''is'' (SRef (length h4)) ps'))"
            unfolding h' using l5 by (simp add: cell_at_def)
          have ct: "cell_at h' (length h4) = Some (ArrayCell ys)"
            unfolding h' h5 using l4 by (simp add: cell_at_def nth_append)
          have look: "map_of (define_property ''is'' (SRef (length h4)) ps') ''is'' = Some (SRef (length h4))"
            by (simp add: map_of_define_property)
          have "\<exists>obj ps t xs. SRef (Suc ?n) = SRef obj \<and> length h \<le> obj \<and>
               cell_at h' obj = Some (ObjectCell ps) \<and>
               map_of ps ''is'' = Some (SRef t) \<and> length h \<le> t \<and> cell_at h' t = Some (ArrayCell xs)"
            using co look ct l4
            by (intro exI [of _ "Suc ?n"] exI [of _ "define_property ''is'' (SRef (length h4)) ps'"]
                  exI [of _ "length h4"] exI [of _ ys]) simp
          with p r show ?thesis by simp
        qed
      qed
    qed
  qed
qed

lemma push_distinct_result:
  "cell_at h result = Some (ArrayCell xs) \<Longrightarrow>
   \<exists>ys. push_distinct result items h = h[result := ArrayCell ys]"
proof (induction items arbitrary: h xs)
  case Nil
  then have "h[result := ArrayCell xs] = h"
    by (simp add: cell_at_def split: if_splits) (metis list_update_id)
  then show ?case by (metis push_distinct.simps(1))
next
  case (Cons item items)
  from Cons.prems have lt: "result < length h" by (simp add: cell_at_def split: if_splits)
  show ?case
  proof (cases "item \<in> set xs")
    case True
    with Cons show ?thesis by simp
  next
    case False
    let ?h = "h[result := ArrayCell (xs @ [item])]"
    have "cell_at ?h result = Some (ArrayCell (xs @ [item]))" using lt by (simp add: cell_at_def)
    from Cons.IH [OF this] obtain ys where "push_distinct result items ?h = ?h[result := ArrayCell ys]"
      by blast
    with Cons.prems False show ?thesis by auto
  qed
qed

lemma union_st_frame:
  assumes "union_st h arrays = (r, h')"
  shows "prefix h h' \<and>
         (\<forall>v. r = Inr v \<longrightarrow>
            (\<exists>t xs. v = SRef t \<and> length h \<le> t \<and> cell_at h' t = Some (ArrayCell xs)))"
proof (cases arrays)
  case Nil
  with assms show ?thesis by (auto simp: union_st_def)
next
  case (Cons this rest)
  show ?thesis
  proof (cases "argument_list h rest")
    case (Inl err)
    with assms Cons show ?thesis by (auto simp: union_st_def)
  next
    case (Inr items)
    obtain rc h1 where c: "array_concat h this items = (rc, h1)" by (cases "array_concat h this items")
    from array_concat_result [OF c] show ?thesis
    proof
      assume "\<exists>err. rc = Inl err \<and> h1 = h"
      then obtain err where "rc = Inl err" "h1 = h" by blast
      with assms Cons Inr c have "r = Inl err" "h' = h" by (simp_all add: union_st_def)
      then show ?thesis by simp
    next
      assume "\<exists>xs. rc = Inr (SRef (length h)) \<and> h1 = h @ [ArrayCell xs]"
      then obtain cs where rc: "rc = Inr (SRef (length h))" and h1: "h1 = h @ [ArrayCell cs]" by blast
      let ?n = "length h"
      let ?h2 = "h @ [ArrayCell cs, ArrayCell []]"
      have cc: "elements ?h2 (SRef ?n) = Some cs" by (simp add: elements_def cell_at_def nth_append)
      have cr: "cell_at ?h2 (Suc ?n) = Some (ArrayCell [])" by (simp add: cell_at_def nth_append)
      from assms Cons Inr c rc h1 cc
      have r: "r = Inr (SRef (Suc ?n))" and h': "h' = push_distinct (Suc ?n) cs ?h2"
        by (simp_all add: union_st_def alloc_def)
      from push_distinct_result [OF cr, of cs] obtain ys where
        pd: "push_distinct (Suc ?n) cs ?h2 = ?h2[Suc ?n := ArrayCell ys]" by blast
      have p: "prefix h h'" unfolding h' pd by (rule prefix_update) simp_all
      have ct: "cell_at h' (Suc ?n) = Some (ArrayCell ys)" unfolding h' pd by (simp add: cell_at_def)
      have "\<exists>t xs. SRef (Suc ?n) = SRef t \<and> length h \<le> t \<and> cell_at h' t = Some (ArrayCell xs)"
        using ct by (intro exI [of _ "Suc ?n"] exI [of _ ys]) simp
      with p r show ?thesis by simp
    qed
  qed
qed

lemma either_st_frame:
  assumes "either_st h types = Some (r, h')"
  shows "prefix h h' \<and>
         (\<forall>v. r = Inr v \<longrightarrow>
            (\<exists>t xs. v = SRef t \<and> length h \<le> t \<and> cell_at h' t = Some (ArrayCell xs)))"
proof (cases "map_findTypes h types")
  case None
  with assms show ?thesis by (simp add: either_st_def)
next
  case (Some f)
  show ?thesis
  proof (cases f)
    case (Inl err)
    with assms Some have "r = Inl err" "h' = h" by (simp_all add: either_st_def)
    then show ?thesis by simp
  next
    case (Inr arrays)
    with assms Some have "union_st h arrays = (r, h')" by (simp add: either_st_def)
    then show ?thesis by (rule union_st_frame)
  qed
qed

text \<open>
  Claim C10. Whenever \<open>required\<close>, \<open>optional\<close> or \<open>either\<close> returns or throws, the store
  from before the call is a prefix of the store after it: no cell that existed is changed, so
  every argument keeps its properties, and its array of type names and the arrays of the
  requirements nested in it keep their contents. When the call returns, the array of type
  names of the result (the \<open>is\<close> of the object that \<open>required\<close> and \<open>optional\<close> return, the
  array that \<open>either\<close> returns) is a cell allocated during the call, and so is the object
  returned; an array of the store shares nothing with another cell.
\<close>

theorem combinators_frame:
  "(required_st h req = Some (r, h') \<longrightarrow>
      prefix h h' \<and>
      (\<forall>v. r = Inr v \<longrightarrow>
         (\<exists>obj ps t xs. v = SRef obj \<and> length h \<le> obj \<and> cell_at h' obj = Some (ObjectCell ps) \<and>
            map_of ps ''is'' = Some (SRef t) \<and> length h \<le> t \<and> cell_at h' t = Some (ArrayCell xs)))) \<and>
   (optional_st h req = Some (r, h') \<longrightarrow>
      prefix h h' \<and>
      (\<forall>v. r = Inr v \<longrightarrow>
         (\<exists>obj ps t xs. v = SRef obj \<and> length h \<le> obj \<and> cell_at h' obj = Some (ObjectCell ps) \<and>
            map_of ps ''is'' = Some (SRef t) \<and> length h \<le> t \<and> cell_at h' t = Some (ArrayCell xs)))) \<and>
   (either_st h types = Some (r, h') \<longrightarrow>
      prefix h h' \<and>
      (\<forall>v. r = Inr v \<longrightarrow>
         (\<exists>t xs. v = SRef t \<and> length h \<le> t \<and> cell_at h' t = Some (ArrayCell xs))))"
  using required_st_frame [of h req r h'] optional_st_frame [of h req r h']
    either_st_frame [of h types r h']
  by blast

lemmas store_defs = alloc_def cell_at_def elements_def isArray_st_def get_is_def
  isTruthyType_st_def array_filter_def own_properties_def merge_st_def filtered_types_def
  array_concat_def set_is_st_def argument_list_def union_st_def

lemma sample_findTypes:
  "findTypes_st sample_store (SRef 4) = Some (Inr (SRef 0))"
  "findTypes_st sample_store (SRef 1) = Some (Inr (SRef 0))"
  "findTypes_st sample_store (SRef 3) = Some (Inr (SRef 2))"
  by (simp_all add: findTypes_st.simps sample_store_def store_defs)

lemma sample_required:
  "required_st sample_store (SRef 4) =
     Some (Inr (SRef 6),
           sample_store @
           [ArrayCell [SString ''string''],
            ObjectCell [(''is'', SRef 5), (''msg'', SString ''m'')],
            ObjectCell [(''is'', SRef 5)]])"
  unfolding required_st_def sample_findTypes
  by (simp add: sample_store_def store_defs)

lemma sample_either:
  "either_st sample_store [SRef 1, SRef 3] =
     Some (Inr (SRef 6),
           sample_store @
           [ArrayCell [SString ''string'', SString ''undefined'', SString ''null'',
                       SString ''number'', SString ''undefined'', SString ''null''],
            ArrayCell [SString ''string'', SString ''undefined'', SString ''null'',
                       SString ''number'']])"
  unfolding either_st_def map_findTypes.simps sample_findTypes
  by (simp add: sample_store_def store_defs)

lemma sample_optional:
  "optional_st sample_store (SRef 4) =
     Some (Inr (SRef 6),
           sample_store @
           [ArrayCell [],
            ObjectCell [(''is'', SRef 8), (''msg'', SString ''m'')],
            ArrayCell [SString ''string''],
            ArrayCell [SString ''string'', SString ''undefined'', SString ''null'']])"
  by (simp add: optional_st_def findTypes_st.simps sample_store_def store_defs)

theorem combinators_frame_witness:
  "required_st sample_store (SRef 4) =
     Some (Inr (SRef 6),
           sample_store @
           [ArrayCell [SString ''string''],
            ObjectCell [(''is'', SRef 5), (''msg'', SString ''m'')],
            ObjectCell [(''is'', SRef 5)]]) \<and>
   prefix sample_store
     (sample_store @
      [ArrayCell [SString ''string''],
       ObjectCell [(''is'', SRef 5), (''msg'', SString ''m'')],
       ObjectCell [(''is'', SRef 5)]]) \<and>
   optional_st sample_store (SRef 4) =
     Some (Inr (SRef 6),
           sample_store @
           [ArrayCell [],
            ObjectCell [(''is'', SRef 8), (''msg'', SString ''m'')],
            ArrayCell [SString ''string''],
            ArrayCell [SString ''string'', SString ''undefined'', SString ''null'']]) \<and>
   prefix sample_store
     (sample_store @
      [ArrayCell [],
       ObjectCell [(''is'', SRef 8), (''msg'', SString ''m'')],
       ArrayCell [SString ''string''],
       ArrayCell [SString ''string'', SString ''undefined'', SString ''null'']]) \<and>
   either_st sample_store [SRef 1, SRef 3] =
     Some (Inr (SRef 6),
           sample_store @
           [ArrayCell [SString ''string'', SString ''undefined'', SString ''null'',
                       SString ''number'', SString ''undefined'', SString ''null''],
            ArrayCell [SString ''string'', SString ''undefined'', SString ''null'',
                       SString ''number'']]) \<and>
   prefix sample_store
     (sample_store @
      [ArrayCell [SString ''string'', SString ''undefined'', SString ''null'',
                  SString ''number'', SString ''undefined'', SString ''null''],
       ArrayCell [SString ''string'', SString ''undefined'', SString ''null'',
                  SString ''number'']]) \<and>
   length sample_store = 5"
proof -
  note r = sample_required and o = sample_optional and e = sample_either
  have pr: "prefix sample_store
     (sample_store @
      [ArrayCell [SString ''string''],
       ObjectCell [(''is'', SRef 5), (''msg'', SString ''m'')],
       ObjectCell [(''is'', SRef 5)]])"
    by (rule combinators_frame [where h = sample_store and req = "SRef 4" and r = "Inr (SRef 6)"
        and h' = "sample_store @
           [ArrayCell [SString ''string''],
            ObjectCell [(''is'', SRef 5), (''msg'', SString ''m'')],
            ObjectCell [(''is'', SRef 5)]]",
        THEN conjunct1, THEN mp, OF r, THEN conjunct1])
  have po: "prefix sample_store
     (sample_store @
      [ArrayCell [],
       ObjectCell [(''is'', SRef 8), (''msg'', SString ''m'')],
       ArrayCell [SString ''string''],
       ArrayCell [SString ''string'', SString ''undefined'', SString ''null'']])"
    by (rule combinators_frame [where h = sample_store and req = "SRef 4" and r = "Inr (SRef 6)"
        and h' = "sample_store @
           [ArrayCell [],
            ObjectCell [(''is'', SRef 8), (''msg'', SString ''m'')],
            ArrayCell [SString ''string''],
            ArrayCell [SString ''string'', SString ''undefined'', SString ''null'']]",
        THEN conjunct2 [THEN conjunct1], THEN mp, OF o, THEN conjunct1])
  have pe: "prefix sample_store
     (sample_store @
      [ArrayCell [SString ''string'', SString ''undefined'', SString ''null'',
                  SString ''number'', SString ''undefined'', SString ''null''],
       ArrayCell [SString ''string'', SString ''undefined'', SString ''null'',
                  SString ''number'']])"
    by (rule combinators_frame [where h = sample_store and types = "[SRef 1, SRef 3]"
        and r = "Inr (SRef 6)"
        and h' = "sample_store @
           [ArrayCell [SString ''string'', SString ''undefined'', SString ''null'',
                       SString ''number'', SString ''undefined'', SString ''null''],
            ArrayCell [SString ''string'', SString ''undefined'', SString ''null'',
                       SString ''number'']]",
        THEN conjunct2 [THEN conjunct2], THEN mp, OF e, THEN conjunct1])
  have l: "length sample_store = 5" by (simp add: sample_store_def)
  from r pr o po e pe l show ?thesis by (intro conjI)
qed

section \<open>The combinators on the store and on requirements agree\<close>

text \<open>
  On a store that represents its arguments, each combinator of the store model returns, and
  what it returns represents the result of the combinator on requirements: the same
  exception, or a reference to a new object or array with the same type names.
\<close>

lemma cell_at_prefix: "prefix h h' \<Longrightarrow> cell_at h a = Some c \<Longrightarrow> cell_at h' a = Some c"
  by (auto simp: cell_at_def prefix_def nth_append split: if_splits)

lemma elements_prefix: "prefix h h' \<Longrightarrow> elements h v = Some xs \<Longrightarrow> elements h' v = Some xs"
  by (auto simp: elements_def dest: cell_at_prefix split: sval.splits option.splits cell.splits)

lemma represents_Absent:
  "represents h v (Nested (Requirement d m Absent p g)) \<longleftrightarrow>
     (\<exists>a ps. v = SRef a \<and> cell_at h a = Some (ObjectCell ps) \<and> distinct (map fst ps) \<and>
             map_of ps ''is'' = None)"
proof (cases v)
  case (SRef a)
  show ?thesis
  proof (cases "cell_at h a")
    case None
    with SRef show ?thesis by simp
  next
    case (Some c)
    with SRef show ?thesis by (cases c) simp_all
  qed
qed simp_all

lemma represents_Falsy:
  "represents h v (Nested (Requirement d m Falsy p g)) \<longleftrightarrow>
     (\<exists>a ps w. v = SRef a \<and> cell_at h a = Some (ObjectCell ps) \<and> distinct (map fst ps) \<and>
               map_of ps ''is'' = Some w \<and> \<not> truthy_st w)"
proof (cases v)
  case (SRef a)
  show ?thesis
  proof (cases "cell_at h a")
    case None
    with SRef show ?thesis by simp
  next
    case (Some c)
    with SRef show ?thesis by (cases c) (simp_all split: option.splits)
  qed
qed simp_all

lemma represents_Truthy:
  "represents h v (Nested (Requirement d m (Truthy t) p g)) \<longleftrightarrow>
     (\<exists>a ps w. v = SRef a \<and> cell_at h a = Some (ObjectCell ps) \<and> distinct (map fst ps) \<and>
               map_of ps ''is'' = Some w \<and> truthy_st w \<and> represents h w t)"
proof (cases v)
  case (SRef a)
  show ?thesis
  proof (cases "cell_at h a")
    case None
    with SRef show ?thesis by simp
  next
    case (Some c)
    with SRef show ?thesis by (cases c) (simp_all split: option.splits)
  qed
qed simp_all

lemma represents_object:
  "represents h v (Nested r) \<Longrightarrow>
   \<exists>a ps. v = SRef a \<and> cell_at h a = Some (ObjectCell ps) \<and> distinct (map fst ps)"
proof (cases r)
  case (Requirement d m i p g)
  assume "represents h v (Nested r)"
  with Requirement show ?thesis
    by (cases i) (auto simp only: represents_Absent represents_Falsy represents_Truthy)
qed

lemma represents_prefix:
  "prefix h h' \<Longrightarrow> represents h v t \<Longrightarrow> represents h' v t"
proof (induction h v t rule: represents.induct)
  case (1 h v ts)
  then show ?case by (simp add: elements_prefix)
next
  case (2 h v d m p g)
  from "2.prems"(2) obtain a ps where
    "v = SRef a" "cell_at h a = Some (ObjectCell ps)" "distinct (map fst ps)" "map_of ps ''is'' = None"
    unfolding represents_Absent by blast
  with cell_at_prefix [OF "2.prems"(1)] show ?case unfolding represents_Absent by blast
next
  case (3 h v d m p g)
  from "3.prems"(2) obtain a ps w where
    "v = SRef a" "cell_at h a = Some (ObjectCell ps)" "distinct (map fst ps)"
    "map_of ps ''is'' = Some w" "\<not> truthy_st w"
    unfolding represents_Falsy by blast
  with cell_at_prefix [OF "3.prems"(1)] show ?case unfolding represents_Falsy by blast
next
  case (4 h v d m t p g)
  from "4.prems"(2) obtain a ps w where
    v: "v = SRef a" and c: "cell_at h a = Some (ObjectCell ps)" and
    dk: "distinct (map fst ps)" and
    w: "map_of ps ''is'' = Some w" "truthy_st w" and r: "represents h w t"
    unfolding represents_Truthy by blast
  from "4.IH" [OF v c refl w(1) "4.prems"(1) r] cell_at_prefix [OF "4.prems"(1) c] v w dk
  show ?case unfolding represents_Truthy by blast
qed

lemma findTypes_st_refines:
  "represents h v t \<Longrightarrow> \<exists>w. findTypes_st h v = Some (Inr w) \<and> represents h w (findTypes t)"
proof (induction t arbitrary: v rule: findTypes.induct)
  case (1 ts)
  then have "isArray_st h v" by (simp add: isArray_st_def)
  with 1 show ?case by (simp add: findTypes_st.simps)
next
  case (2 d m t p g)
  from "2.prems" obtain a ps w where
    v: "v = SRef a" and c: "cell_at h a = Some (ObjectCell ps)" and
    w: "map_of ps ''is'' = Some w" "truthy_st w" and r: "represents h w t"
    unfolding represents_Truthy by blast
  have na: "\<not> isArray_st h v" using v c by (simp add: isArray_st_def elements_def)
  have g: "get_is h v = Inr w" using v c w by (simp add: get_is_def)
  from "2.IH" [OF r] obtain w' where "findTypes_st h w = Some (Inr w')" "represents h w' (findTypes t)"
    by blast
  with na g w show ?case by (subst findTypes_st.simps) simp
next
  case (3 d m p g)
  from "3.prems" obtain a ps where
    v: "v = SRef a" and c: "cell_at h a = Some (ObjectCell ps)" and w: "map_of ps ''is'' = None"
    unfolding represents_Absent by blast
  have na: "\<not> isArray_st h v" using v c by (simp add: isArray_st_def elements_def)
  have g: "get_is h v = Inr SUndefined" using v c w by (simp add: get_is_def)
  have "findTypes_st h v = Some (Inr v)" using na g by (subst findTypes_st.simps) simp
  with "3.prems" show ?case by (simp del: represents.simps)
next
  case (4 d m p g)
  from "4.prems" obtain a ps w where
    v: "v = SRef a" and c: "cell_at h a = Some (ObjectCell ps)" and
    w: "map_of ps ''is'' = Some w" "\<not> truthy_st w"
    unfolding represents_Falsy by blast
  have na: "\<not> isArray_st h v" using v c by (simp add: isArray_st_def elements_def)
  have g: "get_is h v = Inr w" using v c w by (simp add: get_is_def)
  have "findTypes_st h v = Some (Inr v)" using na g w by (subst findTypes_st.simps) simp
  with "4.prems" show ?case by (simp del: represents.simps)
qed

lemma map_findTypes_refines:
  "list_all2 (represents h) vs ts \<Longrightarrow>
   \<exists>ws. map_findTypes h vs = Some (Inr ws) \<and> list_all2 (represents h) ws (map findTypes ts)"
proof (induction vs ts rule: list_all2_induct)
  case Nil
  then show ?case by simp
next
  case (Cons v vs t ts)
  from findTypes_st_refines [OF Cons.hyps(1)] obtain w where
    "findTypes_st h v = Some (Inr w)" "represents h w (findTypes t)" by blast
  moreover from Cons.IH obtain ws where
    "map_findTypes h vs = Some (Inr ws)" "list_all2 (represents h) ws (map findTypes ts)" by blast
  ultimately show ?case by simp
qed

lemma push_distinct_fold:
  "cell_at h r = Some (ArrayCell acc) \<Longrightarrow>
   push_distinct r items h =
     h[r := ArrayCell (fold (\<lambda>item result. if item \<notin> set result then result @ [item] else result)
                         items acc)]"
proof (induction items arbitrary: h acc)
  case Nil
  then have "h ! r = ArrayCell acc" by (simp add: cell_at_def split: if_splits)
  then show ?case using list_update_id [of h r] by simp
next
  case (Cons item items)
  from Cons.prems have lt: "r < length h" by (simp add: cell_at_def split: if_splits)
  show ?case
  proof (cases "item \<in> set acc")
    case True
    with Cons.IH [OF Cons.prems] Cons.prems show ?thesis by simp
  next
    case False
    let ?h = "h[r := ArrayCell (acc @ [item])]"
    have "cell_at ?h r = Some (ArrayCell (acc @ [item]))" using lt by (simp add: cell_at_def)
    from Cons.IH [OF this] Cons.prems False show ?thesis by simp
  qed
qed

lemma fold_push_map:
  assumes "inj f"
  shows "fold (\<lambda>item result. if item \<notin> set result then result @ [item] else result)
           (map f xs) (map f acc)
         = map f (fold (\<lambda>item result. if item \<notin> set result then result @ [item] else result)
                    xs acc)"
proof (induction xs arbitrary: acc)
  case Nil
  then show ?case by simp
next
  case (Cons x xs)
  have m: "f x \<in> f ` set acc \<longleftrightarrow> x \<in> set acc" using assms by (simp add: inj_image_mem_iff)
  show ?case
  proof (cases "x \<in> set acc")
    case True
    with m Cons.IH [of acc] show ?thesis by simp
  next
    case False
    with m Cons.IH [of "acc @ [x]"] show ?thesis by simp
  qed
qed

lemma fold_push_map_after:
  assumes "inj f" and "w \<notin> range f"
  shows "fold (\<lambda>item result. if item \<notin> set result then result @ [item] else result)
           (map f xs) (w # map f acc)
         = w # map f (fold (\<lambda>item result. if item \<notin> set result then result @ [item] else result)
                        xs acc)"
proof (induction xs arbitrary: acc)
  case Nil
  then show ?case by simp
next
  case (Cons x xs)
  have m: "f x \<in> f ` set acc \<longleftrightarrow> x \<in> set acc" using assms(1) by (simp add: inj_image_mem_iff)
  have n: "f x \<noteq> w" using assms(2) by auto
  show ?case
  proof (cases "x \<in> set acc")
    case True
    with m n Cons.IH [of acc] show ?thesis by simp
  next
    case False
    with m n Cons.IH [of "acc @ [x]"] show ?thesis by simp
  qed
qed

lemma inj_SString: "inj SString"
  by (simp add: inj_def)

lemma elements_SString: "elements h (SString s) = None"
  by (simp add: elements_def)

lemma spread_strings:
  "concat (map (\<lambda>item. case elements h item of Some xs \<Rightarrow> xs | None \<Rightarrow> [item]) (map SString xs))
     = map SString xs"
  by (induction xs) (simp_all add: elements_SString)

text \<open>The argument list of \<open>concat\<close> holds the items that \<open>union_arrays\<close> takes from the second array.\<close>

lemma argument_list_refines:
  assumes "list_all2 (represents h) ws (map findTypes ts)"
  shows "argument_list h ws =
           Inr (map SString
                  (case map findTypes ts of
                     [] \<Rightarrow> []
                   | argArray # ignored \<Rightarrow> (case argArray of TypeArray xs \<Rightarrow> xs | Nested r \<Rightarrow> [])))"
proof (cases ts)
  case Nil
  with assms show ?thesis by (simp add: argument_list_def)
next
  case (Cons t rest)
  with assms obtain w wrest where ws: "ws = w # wrest" and r: "represents h w (findTypes t)"
    by (auto simp: list_all2_Cons2)
  show ?thesis
  proof (cases "findTypes t")
    case (TypeArray xs)
    with r have e: "elements h w = Some (map SString xs)" by simp
    then obtain a where "w = SRef a" by (auto simp: elements_def split: sval.splits)
    with e ws Cons TypeArray show ?thesis by (simp add: argument_list_def)
  next
    case (Nested rq)
    with r represents_object [of h w rq] obtain a ps where
      w: "w = SRef a" "cell_at h a = Some (ObjectCell ps)"
      by auto
    then have "elements h w = None" by (simp add: elements_def)
    with w ws Cons Nested show ?thesis by (simp add: argument_list_def)
  qed
qed

lemma either_st_refines:
  assumes "list_all2 (represents h) vs ts"
  shows "(\<forall>err. either ts = Inl err \<longrightarrow> (\<exists>h'. either_st h vs = Some (Inl err, h'))) \<and>
         (\<forall>xs. either ts = Inr (Tags xs) \<longrightarrow>
            (\<exists>a h'. either_st h vs = Some (Inr (SRef a), h') \<and>
                     elements h' (SRef a) = Some (map SString xs))) \<and>
         (\<forall>r xs. either ts = Inr (ObjectFirst r xs) \<longrightarrow>
            (\<exists>a h' w. either_st h vs = Some (Inr (SRef a), h') \<and>
                       elements h' (SRef a) = Some (w # map SString xs) \<and>
                       represents h' w (Nested r)))"
proof -
  from map_findTypes_refines [OF assms] obtain ws where
    mf: "map_findTypes h vs = Some (Inr ws)" and
    rs: "list_all2 (represents h) ws (map findTypes ts)" by blast
  have e: "either_st h vs = Some (union_st h ws)" by (simp add: either_st_def mf)
  show ?thesis
  proof (cases ts)
    case Nil
    with rs have "ws = []" by simp
    with e Nil show ?thesis by (simp add: either_def union_st_def)
  next
    case (Cons t rest)
    with rs obtain w wrest where ws: "ws = w # wrest" and r: "represents h w (findTypes t)"
      and rr: "list_all2 (represents h) wrest (map findTypes rest)"
      by (auto simp: list_all2_Cons2)
    let ?items = "case map findTypes rest of
                     [] \<Rightarrow> []
                   | argArray # ignored \<Rightarrow> (case argArray of TypeArray xs \<Rightarrow> xs | Nested r \<Rightarrow> [])"
    have al: "argument_list h wrest = Inr (map SString ?items)"
      by (rule argument_list_refines [OF rr])
    let ?n = "length h"
    show ?thesis
    proof (cases "findTypes t")
      case (TypeArray xs)
      with r have el: "elements h w = Some (map SString xs)" by simp
      then obtain a where w: "w = SRef a" by (auto simp: elements_def split: sval.splits)
      let ?combined = "map SString (xs @ ?items)"
      let ?h2 = "h @ [ArrayCell ?combined, ArrayCell []]"
      have ac: "array_concat h w (map SString ?items) = (Inr (SRef ?n), h @ [ArrayCell ?combined])"
        using el w by (simp add: array_concat_def alloc_def spread_strings Let_def del: map_map)
      have c2: "elements ?h2 (SRef ?n) = Some ?combined"
        by (simp add: elements_def cell_at_def nth_append)
      have cr: "cell_at ?h2 (Suc ?n) = Some (ArrayCell [])"
        by (simp add: cell_at_def nth_append)
      have u: "union_st h ws = (Inr (SRef (Suc ?n)), push_distinct (Suc ?n) ?combined ?h2)"
        using ws al ac c2 by (simp add: union_st_def alloc_def)
      have pd: "push_distinct (Suc ?n) ?combined ?h2 =
                  ?h2[Suc ?n := ArrayCell (map SString (distinct_items (xs @ ?items)))]"
        unfolding push_distinct_fold [OF cr] distinct_items_def
        using fold_push_map [OF inj_SString, of "xs @ ?items" "[]"] by simp
      have res: "elements (?h2[Suc ?n := ArrayCell (map SString (distinct_items (xs @ ?items)))])
                   (SRef (Suc ?n)) = Some (map SString (distinct_items (xs @ ?items)))"
        by (simp add: elements_def cell_at_def)
      have pure: "either ts = Inr (Tags (distinct_items (xs @ ?items)))"
        using Cons TypeArray by (simp add: either_def Let_def)
      from e u pd res pure show ?thesis by simp
    next
      case (Nested rq)
      with r represents_object [of h w rq] obtain a ps where
        w: "w = SRef a" and c: "cell_at h a = Some (ObjectCell ps)" by auto
      then have el: "elements h w = None" by (simp add: elements_def)
      let ?combined = "w # map SString ?items"
      let ?h2 = "h @ [ArrayCell ?combined, ArrayCell []]"
      have ac: "array_concat h w (map SString ?items) = (Inr (SRef ?n), h @ [ArrayCell ?combined])"
        using el w by (simp add: array_concat_def alloc_def spread_strings Let_def del: map_map)
      have c2: "elements ?h2 (SRef ?n) = Some ?combined"
        by (simp add: elements_def cell_at_def nth_append)
      have cr: "cell_at ?h2 (Suc ?n) = Some (ArrayCell [])"
        by (simp add: cell_at_def nth_append)
      have u: "union_st h ws = (Inr (SRef (Suc ?n)), push_distinct (Suc ?n) ?combined ?h2)"
        using ws al ac c2 by (simp add: union_st_def alloc_def)
      have notstr: "w \<notin> range SString" using w by auto
      have pd: "push_distinct (Suc ?n) ?combined ?h2 =
                  ?h2[Suc ?n := ArrayCell (w # map SString (distinct_items ?items))]"
        unfolding push_distinct_fold [OF cr] distinct_items_def
        using fold_push_map_after [OF inj_SString notstr, of ?items "[]"] by simp
      let ?h' = "?h2[Suc ?n := ArrayCell (w # map SString (distinct_items ?items))]"
      have res: "elements ?h' (SRef (Suc ?n)) = Some (w # map SString (distinct_items ?items))"
        by (simp add: elements_def cell_at_def)
      have "prefix h ?h'" by (rule prefix_update) simp_all
      from represents_prefix [OF this] r Nested have rp: "represents ?h' w (Nested rq)" by simp
      have pure: "either ts = Inr (ObjectFirst rq (distinct_items ?items))"
        using Cons Nested by (simp add: either_def Let_def)
      from e u pd res rp pure show ?thesis by auto
    qed
  qed
qed

lemma filter_isTruthyType_st:
  "filter isTruthyType_st (map SString ts) = map SString (filter isTruthyType ts)"
  by (induction ts) (simp_all add: isTruthyType_st_def isTruthyType_def)

lemma merge_two:
  "merge empty_object [req, is_object types] =
     Requirement (dflt req) (map_fn req) (Truthy (TypeArray types)) (ok_fn req) (msg req)"
  by (simp add: merge_def define_properties_def is_object_def empty_object_def
        split: option.splits)

lemma merge_st_last_distinct:
  assumes "cell_at h a = Some (ObjectCell ps)"
    and "own_properties h lit = [(k, v)]" and "truthy_st lit" and "distinct (map fst ps)"
  shows "\<exists>ps'. merge_st h (SRef a) (props @ [lit]) = (Inr (SRef a), h[a := ObjectCell ps']) \<and>
               map_of ps' k = Some v \<and> distinct (map fst ps')"
proof -
  let ?inner = "\<lambda>(name, v) d. define_property name v d"
  let ?outer = "\<lambda>props d. fold ?inner (own_properties h props) d"
  let ?d1 = "fold ?outer (filter truthy_st props) []"
  let ?d = "fold ?outer (filter truthy_st (props @ [lit])) []"
  have d: "?d = define_property k v ?d1" using assms(2,3) by simp
  have "distinct (map fst ?d1)" by (rule distinct_descriptor) simp
  then have dist: "distinct (map fst ?d)" unfolding d by (rule distinct_define_property)
  have look: "map_of ?d k = Some v" unfolding d by (simp add: map_of_define_property)
  have "map_of (fold ?inner ?d ps) k = Some v"
    unfolding map_of_fold_define map_of_rev_distinct [OF dist]
    by (rule map_add_find_right [of "map_of ?d" k v "map_of ps", OF look])
  moreover have "distinct (map fst (fold ?inner ?d ps))"
    by (rule distinct_fold_define [OF assms(4)])
  moreover have "merge_st h (SRef a) (props @ [lit]) = (Inr (SRef a), h[a := ObjectCell (fold ?inner ?d ps)])"
    using assms(1) by (simp add: merge_st_def Let_def)
  ultimately show ?thesis by blast
qed

lemma merge_st_single:
  assumes "cell_at h a = Some (ObjectCell ps)" and "distinct (map fst ps)"
    and "cell_at h b = Some (ObjectCell ps0)" and "distinct (map fst ps0)"
  shows "\<exists>ps'. merge_st h (SRef a) [SRef b] = (Inr (SRef a), h[a := ObjectCell ps']) \<and>
               map_of ps' = map_of ps ++ map_of ps0 \<and> distinct (map fst ps')"
proof -
  let ?inner = "\<lambda>(name, v) d. define_property name v d"
  let ?d = "fold ?inner ps0 []"
  have dd: "distinct (map fst ?d)" by (rule distinct_fold_define) simp
  have md: "map_of ?d = map_of ps0"
    by (simp add: map_of_fold_define map_of_rev_distinct [OF assms(4)])
  have "map_of (fold ?inner ?d ps) = map_of ps ++ map_of (rev ?d)"
    by (rule map_of_fold_define)
  also have "map_of (rev ?d) = map_of ?d" by (rule map_of_rev_distinct [OF dd])
  finally have mp: "map_of (fold ?inner ?d ps) = map_of ps ++ map_of ps0"
    by (simp only: md)
  have dp: "distinct (map fst (fold ?inner ?d ps))" by (rule distinct_fold_define [OF assms(2)])
  have "merge_st h (SRef a) [SRef b] = (Inr (SRef a), h[a := ObjectCell (fold ?inner ?d ps)])"
    using assms(1,3) by (simp add: merge_st_def Let_def own_properties_def)
  with mp dp show ?thesis by blast
qed

lemma required_st_refines:
  assumes "represents h v (Nested req)"
  shows "(\<forall>err. required req = Inl err \<longrightarrow> (\<exists>h'. required_st h v = Some (Inl err, h'))) \<and>
         (\<forall>r'. required req = Inr r' \<longrightarrow>
            (\<exists>a h'. required_st h v = Some (Inr (SRef a), h') \<and> represents h' (SRef a) (Nested r')))"
proof -
  from findTypes_st_refines [OF assms] obtain w where
    f: "findTypes_st h v = Some (Inr w)" and rw: "represents h w (findTypes (Nested req))" by blast
  let ?n = "length h"
  show ?thesis
  proof (cases "findTypes (Nested req)")
    case (TypeArray ts)
    with rw have el: "elements h w = Some (map SString ts)" by simp
    then obtain b where w: "w = SRef b" by (auto simp: elements_def split: sval.splits)
    let ?types = "filter isTruthyType ts"
    let ?h3 = "h @ [ArrayCell (map SString ?types), ObjectCell [], ObjectCell [(''is'', SRef ?n)]]"
    have ft: "filtered_types h w = (Inr (SRef ?n), h @ [ArrayCell (map SString ?types)])"
      using el w by (simp add: filtered_types_def array_filter_def alloc_def filter_isTruthyType_st)
    have run: "required_st h v = Some (merge_st ?h3 (SRef (Suc ?n)) ([v] @ [SRef (Suc (Suc ?n))]))"
      by (simp add: required_st_def f ft alloc_def)
    have c: "cell_at ?h3 (Suc ?n) = Some (ObjectCell [])" by (simp add: cell_at_def nth_append)
    have o: "own_properties ?h3 (SRef (Suc (Suc ?n))) = [(''is'', SRef ?n)]"
      by (simp add: own_properties_def cell_at_def nth_append)
    from merge_st_last_distinct [OF c o, of "[v]"] obtain ps' where
      m: "merge_st ?h3 (SRef (Suc ?n)) ([v] @ [SRef (Suc (Suc ?n))])
            = (Inr (SRef (Suc ?n)), ?h3[Suc ?n := ObjectCell ps'])" and
      look: "map_of ps' ''is'' = Some (SRef ?n)" and dk: "distinct (map fst ps')"
      by auto
    let ?h' = "?h3[Suc ?n := ObjectCell ps']"
    have co: "cell_at ?h' (Suc ?n) = Some (ObjectCell ps')" by (simp add: cell_at_def)
    have et: "elements ?h' (SRef ?n) = Some (map SString ?types)"
      by (simp add: elements_def cell_at_def nth_append)
    have rep: "represents ?h' (SRef (Suc ?n))
                 (Nested (Requirement (dflt req) (map_fn req) (Truthy (TypeArray ?types))
                            (ok_fn req) (msg req)))"
      unfolding represents_Truthy using co look dk et by auto
    have pure: "required req =
                  Inr (Requirement (dflt req) (map_fn req) (Truthy (TypeArray ?types))
                         (ok_fn req) (msg req))"
      using TypeArray by (simp add: required_def merge_two)
    from run m rep pure show ?thesis by auto
  next
    case (Nested rq)
    with rw represents_object [of h w rq] obtain b ps where
      w: "w = SRef b" and c: "cell_at h b = Some (ObjectCell ps)" by auto
    then have "filtered_types h w = (Inl TypeError, h)"
      by (simp add: filtered_types_def array_filter_def elements_def)
    then have "required_st h v = Some (Inl TypeError, h)" by (simp add: required_st_def f)
    moreover have "required req = Inl TypeError" using Nested by (simp add: required_def)
    ultimately show ?thesis by simp
  qed
qed

lemma optional_st_refines:
  assumes "represents h v (Nested req0)"
  shows "(\<forall>err. optional req0 = Inl err \<longrightarrow> (\<exists>h'. optional_st h v = Some (Inl err, h'))) \<and>
         (\<forall>r'. optional req0 = Inr r' \<longrightarrow>
            (\<exists>a h'. optional_st h v = Some (Inr (SRef a), h') \<and> represents h' (SRef a) (Nested r')))"
proof -
  obtain d m i p g where req0: "req0 = Requirement d m i p g" by (cases req0)
  from represents_object [OF assms] obtain b ps0 where
    v: "v = SRef b" and cb: "cell_at h b = Some (ObjectCell ps0)" and d0: "distinct (map fst ps0)"
    by blast
  let ?n = "length h"
  let ?h2 = "h @ [ArrayCell [], ObjectCell [(''is'', SRef ?n)]]"
  have p2: "prefix h ?h2" by simp
  have c2: "cell_at ?h2 (Suc ?n) = Some (ObjectCell [(''is'', SRef ?n)])"
    by (simp add: cell_at_def nth_append)
  have cb2: "cell_at ?h2 b = Some (ObjectCell ps0)" by (rule cell_at_prefix [OF p2 cb])
  from merge_st_single [OF c2 _ cb2 d0] obtain ps' where
    m: "merge_st ?h2 (SRef (Suc ?n)) [SRef b] = (Inr (SRef (Suc ?n)), ?h2[Suc ?n := ObjectCell ps'])"
    and mp: "map_of ps' = map_of [(''is'', SRef ?n)] ++ map_of ps0"
    and dk: "distinct (map fst ps')"
    by auto
  let ?h3 = "?h2[Suc ?n := ObjectCell ps']"
  have p3: "prefix h ?h3" by (rule prefix_update) simp_all
  have c3: "cell_at ?h3 (Suc ?n) = Some (ObjectCell ps')" by (simp add: cell_at_def)
  have e3: "elements ?h3 (SRef ?n) = Some []" by (simp add: elements_def cell_at_def nth_append)
  let ?i' = "case i of Absent \<Rightarrow> Truthy (TypeArray []) | Falsy \<Rightarrow> Falsy | Truthy t \<Rightarrow> Truthy t"
  let ?req = "Requirement d m ?i' p g"
  have mg: "merge (is_object []) [req0] = ?req" by (simp add: merge_literal_one req0)
  have rep3: "represents ?h3 (SRef (Suc ?n)) (Nested ?req)"
  proof (cases i)
    case Absent
    from assms v cb have "map_of ps0 ''is'' = None"
      unfolding req0 Absent represents_Absent by auto
    with mp have "map_of ps' ''is'' = Some (SRef ?n)" by (simp add: map_add_def)
    with c3 dk e3 show ?thesis unfolding Absent by (simp add: represents_Truthy)
  next
    case Falsy
    from assms v cb obtain w where "map_of ps0 ''is'' = Some w" "\<not> truthy_st w"
      unfolding req0 Falsy represents_Falsy by auto
    with mp have "map_of ps' ''is'' = Some w" "\<not> truthy_st w" by (simp_all add: map_add_def)
    with c3 dk show ?thesis unfolding Falsy by (simp add: represents_Falsy)
  next
    case (Truthy t)
    from assms v cb obtain w where w: "map_of ps0 ''is'' = Some w" "truthy_st w" "represents h w t"
      unfolding req0 Truthy represents_Truthy by auto
    with mp have "map_of ps' ''is'' = Some w" by (simp add: map_add_def)
    moreover have "represents ?h3 w t" by (rule represents_prefix [OF p3 w(3)])
    ultimately show ?thesis using c3 dk w(2) unfolding Truthy by (simp add: represents_Truthy)
  qed
  from findTypes_st_refines [OF rep3] obtain w' where
    f: "findTypes_st ?h3 (SRef (Suc ?n)) = Some (Inr w')" and
    rw: "represents ?h3 w' (findTypes (Nested ?req))" by blast
  have l3: "length ?h3 = Suc (Suc ?n)" by simp
  show ?thesis
  proof (cases "findTypes (Nested ?req)")
    case (TypeArray ts)
    with rw have el: "elements ?h3 w' = Some (map SString ts)" by simp
    let ?types1 = "filter isTruthyType ts"
    let ?types = "?types1 @ [''undefined'', ''null'']"
    let ?h4 = "?h3 @ [ArrayCell (map SString ?types1)]"
    let ?h5 = "?h3 @ [ArrayCell (map SString ?types1),
                      ArrayCell (map SString ?types1 @ [SString ''undefined'', SString ''null''])]"
    let ?ps'' = "define_property ''is'' (SRef (Suc (Suc (Suc ?n)))) ps'"
    let ?h6 = "?h5[Suc ?n := ObjectCell ?ps'']"
    have af: "array_filter ?h3 w' = (Inr (SRef (Suc (Suc ?n))), ?h4)"
      using el by (simp add: array_filter_def alloc_def filter_isTruthyType_st)
    have e4: "elements ?h4 (SRef (Suc (Suc ?n))) = Some (map SString ?types1)"
      by (simp add: elements_def cell_at_def nth_append)
    have ac: "array_concat ?h4 (SRef (Suc (Suc ?n))) [SString ''undefined'', SString ''null'']
                = (Inr (SRef (Suc (Suc (Suc ?n)))), ?h5)"
      using e4 by (simp add: array_concat_def alloc_def Let_def elements_SString)
    have c5: "cell_at ?h5 (Suc ?n) = Some (ObjectCell ps')"
      by (simp add: cell_at_def nth_append)
    have si: "set_is_st ?h5 (SRef (Suc ?n)) (SRef (Suc (Suc (Suc ?n)))) = (Inr (), ?h6)"
      by (rule set_is_st_object [OF c5])
    have run: "optional_st h v = Some (Inr (SRef (Suc ?n)), ?h6)"
      unfolding optional_st_def
      by (simp add: alloc_def v m f af ac si del: list_update.simps length_list_update)
    have c6: "cell_at ?h6 (Suc ?n) = Some (ObjectCell ?ps'')" by (simp add: cell_at_def)
    have e6: "elements ?h6 (SRef (Suc (Suc (Suc ?n)))) = Some (map SString ?types)"
      by (simp add: elements_def cell_at_def nth_append)
    have d6: "distinct (map fst ?ps'')" by (rule distinct_define_property [OF dk])
    have l6: "map_of ?ps'' ''is'' = Some (SRef (Suc (Suc (Suc ?n))))"
      by (simp add: map_of_define_property)
    have rep: "represents ?h6 (SRef (Suc ?n))
                 (Nested (Requirement d m (Truthy (TypeArray ?types)) p g))"
      unfolding represents_Truthy using c6 d6 l6 e6 by auto
    have pure: "optional req0 = Inr (Requirement d m (Truthy (TypeArray ?types)) p g)"
      using TypeArray by (simp add: optional_def mg set_is_def Let_def)
    from run rep pure show ?thesis by auto
  next
    case (Nested rq)
    with rw represents_object [of ?h3 w' rq] obtain c ps where
      w': "w' = SRef c" and cc: "cell_at ?h3 c = Some (ObjectCell ps)" by auto
    then have "array_filter ?h3 w' = (Inl TypeError, ?h3)"
      by (simp add: array_filter_def elements_def)
    then have "optional_st h v = Some (Inl TypeError, ?h3)"
      unfolding optional_st_def
      by (simp add: alloc_def v m f del: list_update.simps length_list_update)
    moreover have "optional req0 = Inl TypeError" using Nested by (simp add: optional_def mg Let_def)
    ultimately show ?thesis by simp
  qed
qed

end
